theory Spec2Isabelle
  imports Main "HOL-Library.Word" "HOL-Library.Signed_Division"
begin

unbundle bit_operations_syntax

section \<open>Errors\<close>

text \<open>
  The ways in which a call of the C++ code ends without returning: a failed \<open>assert\<close>
  (the program aborts), a \<open>std::out_of_range\<close> thrown by \<open>std::string::substr\<close> (no
  handler exists in the sources, so it leaves the function), and an operation the language
  leaves undefined (an index of a \<open>std::string\<close> past its terminator, a division by zero, a
  copy that leaves the vector, a lock of a mutex that the thread owns).
\<close>

datatype error = AssertFailed | OutOfRange | UndefinedBehaviour

section \<open>Byte buffer (code/buffer/buffer.cpp)\<close>

text \<open>
  \<open>size_t\<close> has 64 bits. A value of that type is a natural number up to \<open>SIZE_MAX\<close>, and
  \<open>size_t_of_int k\<close> is the value that an unsigned computation with the exact result \<open>k\<close>
  leaves: sums and differences of \<open>size_t\<close> wrap around.
\<close>

definition SIZE_MAX :: nat where
  "SIZE_MAX = 2 ^ 64 - 1"

definition size_t_of_int :: "int \<Rightarrow> nat" where
  "size_t_of_int k = nat (k mod 2 ^ 64)"

text \<open>
  \<open>Buffer\<close> holds a \<open>std::vector<char>\<close> and two \<open>size_t\<close> cursors (atomic ones, used from
  one thread here). Every sum and difference that the code forms of them is taken in \<open>size_t\<close>.
  Allocation is taken to succeed: \<open>resize\<close> does not throw. A pointer into the vector is its offset
  from \<open>BeginPtr_()\<close>, and a copy or a read that leaves the vector is undefined. Isabelle
  admits no name that ends in an underscore, so a member or function \<open>x_\<close> of the source is
  written \<open>x'\<close>.
\<close>

record Buffer =
  buffer' :: "char list"
  readPos' :: nat
  writePos' :: nat

text \<open>The constructor, for an \<open>initBuffSize\<close> that is not negative.\<close>

definition Buffer_init :: "nat \<Rightarrow> Buffer" where
  "Buffer_init initBuffSize =
     \<lparr>buffer' = replicate initBuffSize (CHR 0x00), readPos' = 0, writePos' = 0\<rparr>"

definition WritableBytes :: "Buffer \<Rightarrow> nat" where
  "WritableBytes b = size_t_of_int (int (length (buffer' b)) - int (writePos' b))"

definition ReadableBytes :: "Buffer \<Rightarrow> nat" where
  "ReadableBytes b = size_t_of_int (int (writePos' b) - int (readPos' b))"

definition PrependableBytes :: "Buffer \<Rightarrow> nat" where
  "PrependableBytes b = readPos' b"

text \<open>
  The bytes of the half-open range from \<open>Peek()\<close> to \<open>BeginWriteConst()\<close>, when the cursors
  are in order and within the vector.
\<close>

definition Peek :: "Buffer \<Rightarrow> char list" where
  "Peek b = take (ReadableBytes b) (drop (readPos' b) (buffer' b))"

text \<open>
  \<open>std::copy(first, last, d_first)\<close> into a vector at offset \<open>pos\<close>, with the source range
  given by its bytes. In \<open>MakeSpace_\<close> the ranges overlap with \<open>d_first\<close> before \<open>first\<close>,
  where the forward copy reads every byte before it overwrites it.
\<close>

definition std_copy :: "char list \<Rightarrow> nat \<Rightarrow> char list \<Rightarrow> char list" where
  "std_copy src pos v = take pos v @ src @ drop (pos + length src) v"

text \<open>\<open>std::vector<char>::resize(n)\<close>: truncates, or pads with value-initialised bytes.\<close>

definition resize :: "char list \<Rightarrow> nat \<Rightarrow> char list" where
  "resize v n = take n v @ replicate (n - length v) (CHR 0x00)"

definition MakeSpace' :: "Buffer \<Rightarrow> nat \<Rightarrow> error + Buffer" where
  "MakeSpace' b len =
     (if size_t_of_int (int (WritableBytes b) + int (PrependableBytes b)) < len
      then Inr (b\<lparr>buffer' := resize (buffer' b)
                               (size_t_of_int (int (writePos' b) + int len + 1))\<rparr>)
      else if readPos' b \<le> writePos' b \<and> writePos' b \<le> length (buffer' b)
      then
        let readable = ReadableBytes b;
            b1 = b\<lparr>buffer' := std_copy (Peek b) 0 (buffer' b)\<rparr>;
            b2 = b1\<lparr>readPos' := 0\<rparr>;
            b3 = b2\<lparr>writePos' := size_t_of_int (int (readPos' b2) + int readable)\<rparr>
        in if readable = ReadableBytes b3 then Inr b3 else Inl AssertFailed
      else Inl UndefinedBehaviour)"

definition EnsureWriteable :: "Buffer \<Rightarrow> nat \<Rightarrow> error + Buffer" where
  "EnsureWriteable b len =
     (case (if WritableBytes b < len then MakeSpace' b len else Inr b) of
        Inl e \<Rightarrow> Inl e
      | Inr b1 \<Rightarrow> if WritableBytes b1 \<ge> len then Inr b1 else Inl AssertFailed)"

definition HasWritten :: "Buffer \<Rightarrow> nat \<Rightarrow> Buffer" where
  "HasWritten b len = b\<lparr>writePos' := size_t_of_int (int (writePos' b) + int len)\<rparr>"

definition Retrieve :: "Buffer \<Rightarrow> nat \<Rightarrow> error + Buffer" where
  "Retrieve b len =
     (if len \<le> ReadableBytes b
      then
        let b1 = b\<lparr>readPos' := size_t_of_int (int (readPos' b) + int len)\<rparr>
        in if readPos' b1 = writePos' b1
           then Inr (b1\<lparr>readPos' := 0, writePos' := 0\<rparr>)
           else Inr b1
      else Inl AssertFailed)"

text \<open>\<open>end\<close> is the offset of the pointer from \<open>BeginPtr_()\<close>.\<close>

definition RetrieveUntil :: "Buffer \<Rightarrow> nat \<Rightarrow> error + Buffer" where
  "RetrieveUntil b end_off =
     (if readPos' b \<le> end_off
      then if end_off \<le> writePos' b
           then Retrieve b (end_off - readPos' b)
           else Inl AssertFailed
      else Inl AssertFailed)"



text \<open>\<open>std::copy\<close> to \<open>BeginWrite()\<close> is defined when the bytes end within the vector.\<close>

definition Append :: "Buffer \<Rightarrow> char list \<Rightarrow> error + Buffer" where
  "Append b d =
     (case EnsureWriteable b (length d) of
        Inl e \<Rightarrow> Inl e
      | Inr b1 \<Rightarrow>
          if writePos' b1 + length d \<le> length (buffer' b1)
          then Inr (HasWritten (b1\<lparr>buffer' := std_copy d (writePos' b1) (buffer' b1)\<rparr>)
                     (length d))
          else Inl UndefinedBehaviour)"

text \<open>
  The operating system's side of \<open>readv\<close> and \<open>write\<close>: what the call returned. A scatter
  read fills its regions in the order given, each to its length before the next.
\<close>

datatype readv_result = ReadvFailed int | ReadvBytes "char list"


fun scatter :: "nat list \<Rightarrow> char list \<Rightarrow> char list list" where
  "scatter [] d = []"
| "scatter (n # ns) d = take n d # scatter ns (drop n d)"

text \<open>
  \<open>ReadFd\<close> returns the buffer, the value of \<open>len\<close> and what it stored in \<open>*Errno\<close>.
  \<open>iov\<close> lists the lengths of the two regions handed to \<open>readv\<close>: the writable tail and the
  stack array \<open>buff\<close> of 65536 bytes. The first region starts at \<open>writePos_\<close>, which has to
  be within the vector.
\<close>

definition ReadFd_iov :: "Buffer \<Rightarrow> nat list" where
  "ReadFd_iov b = [WritableBytes b, 65536]"

definition ReadFd :: "Buffer \<Rightarrow> readv_result \<Rightarrow> error + (Buffer \<times> int \<times> int option)" where
  "ReadFd b res =
     (let writable = WritableBytes b in
      if length (buffer' b) < writePos' b
      then Inl UndefinedBehaviour
      else
        case res of
          ReadvFailed errno \<Rightarrow> Inr (b, - 1, Some errno)
        | ReadvBytes d \<Rightarrow>
            (let regions = scatter (ReadFd_iov b) d;
                 tail = regions ! 0;
                 buff = regions ! 1;
                 len = length d;
                 b1 = b\<lparr>buffer' := std_copy tail (writePos' b) (buffer' b)\<rparr>
             in if len \<le> writable
                then Inr (b1\<lparr>writePos' := size_t_of_int (int (writePos' b1) + int len)\<rparr>,
                          int len, None)
                else
                  (case Append (b1\<lparr>writePos' := length (buffer' b1)\<rparr>)
                          (take (len - writable) buff) of
                     Inl e \<Rightarrow> Inl e
                   | Inr b2 \<Rightarrow> Inr (b2, int len, None))))"


text \<open>
  A buffer whose vector is filled by the bytes \<open>s\<close>, all of them unread: the state in which
  \<open>ReadFd\<close> leaves a buffer when \<open>readv\<close> delivered \<open>s\<close> into a vector of that size.
\<close>

definition Buffer_of :: "char list \<Rightarrow> Buffer" where
  "Buffer_of s = \<lparr>buffer' = s, readPos' = 0, writePos' = length s\<rparr>"

text \<open>
  The cursor invariant of the specification, \<open>readPos_ \<le> writePos_ \<le> buffer_.size()\<close>, for
  a vector whose \<open>size()\<close> is a value of \<open>size_t\<close>.
\<close>

definition buf_inv :: "Buffer \<Rightarrow> bool" where
  "buf_inv b \<longleftrightarrow>
     readPos' b \<le> writePos' b \<and> writePos' b \<le> length (buffer' b)
     \<and> length (buffer' b) \<le> SIZE_MAX"

text \<open>
  \<open>MakeSpace_(len)\<close> resizes the vector to \<open>writePos_ + len + 1\<close> when the room before and
  behind the readable bytes is less than \<open>len\<close>. \<open>resize_fits\<close> says that this sum, if the
  call forms it, is a value of \<open>size_t\<close>. It is one whenever \<open>len\<close> is the size of bytes
  that exist beside the vector, since no object has more than \<open>PTRDIFF_MAX\<close> bytes.
\<close>

definition PTRDIFF_MAX :: nat where
  "PTRDIFF_MAX = 2 ^ 63 - 1"

definition resize_fits :: "Buffer \<Rightarrow> nat \<Rightarrow> bool" where
  "resize_fits b len \<longleftrightarrow>
     len \<le> WritableBytes b + PrependableBytes b \<or> writePos' b + len + 1 \<le> SIZE_MAX"





section \<open>Strings of the standard library\<close>

text \<open>
  \<open>std::string::npos\<close>, \<open>find_last_of\<close> for one character, and \<open>substr\<close>, which throws
  \<open>std::out_of_range\<close> when \<open>pos > size()\<close>.
\<close>

definition npos :: nat where
  "npos = 2 ^ 64 - 1"

definition find_last_of :: "string \<Rightarrow> char \<Rightarrow> nat" where
  "find_last_of s c =
     (if c \<in> set s then length s - 1 - length (takeWhile (\<lambda>x. x \<noteq> c) (rev s)) else npos)"

definition substr :: "string \<Rightarrow> nat \<Rightarrow> nat \<Rightarrow> error + string" where
  "substr s pos n = (if pos > length s then Inl OutOfRange else Inr (take n (drop pos s)))"

text \<open>
  \<open>std::search(first, last, s_first, s_last)\<close> as the offset of its result from \<open>first\<close>: the
  first position where the pattern starts, or the length of the range (\<open>last\<close>) when there is
  none.
\<close>

fun search :: "char list \<Rightarrow> char list \<Rightarrow> nat" where
  "search [] pat = 0"
| "search (x # xs) pat = (if take (length pat) (x # xs) = pat then 0 else Suc (search xs pat))"

definition CRLF :: "char list" where
  "CRLF = [CHR 0x0D, CHR 0x0A]"

section \<open>Log file names (code/log/log.cpp)\<close>

text \<open>
  What \<open>snprintf\<close> writes for the conversions the logger uses: \<open>%d\<close>, \<open>%0wd\<close> (padded
  with zeros to the width, the sign counted), and the cut to one character less than the size given.
\<close>

fun digits_of :: "nat \<Rightarrow> string" where
  "digits_of n =
     (if n < 10 then [char_of (of_char CHR ''0'' + int n)]
      else digits_of (n div 10) @ [char_of (of_char CHR ''0'' + int (n mod 10))])"

definition to_string :: "int \<Rightarrow> string" where
  "to_string k = (if k < 0 then CHR ''-'' # digits_of (nat (- k)) else digits_of (nat k))"

definition fmt_0d :: "nat \<Rightarrow> int \<Rightarrow> string" where
  "fmt_0d w k =
     (if k < 0
      then CHR ''-'' # replicate (w - 1 - length (digits_of (nat (- k)))) (CHR ''0'')
             @ digits_of (nat (- k))
      else replicate (w - length (digits_of (nat k))) (CHR ''0'') @ digits_of (nat k))"

definition snprintf :: "nat \<Rightarrow> string \<Rightarrow> string" where
  "snprintf n s = take (n - 1) s"

text \<open>
  The members of \<open>struct tm\<close> and of \<open>Log\<close> that name a file. \<open>fp'\<close> is the name of the
  file that is open, and \<open>mtx'\<close> holds when the calling thread owns \<open>mtx_\<close>. \<open>log.h\<close> is not
  among the sources: its constants \<open>LOG_PATH_LEN\<close> and \<open>LOG_NAME_LEN\<close> are parameters, and
  \<open>MAX_LINES\<close> is the argument of the constructor \<open>Log_Log\<close>.
\<close>

record tm =
  tm_year :: int
  tm_mon :: int
  tm_mday :: int

record Log =
  lineCount' :: int
  toDay' :: int
  path' :: string
  suffix' :: string
  MAX_LINES' :: int
  fp' :: "string option"
  mtx' :: bool

definition Log_Log :: "int \<Rightarrow> Log" where
  "Log_Log MAX_LINES =
     \<lparr>lineCount' = 0, toDay' = 0, path' = [], suffix' = [], MAX_LINES' = MAX_LINES, fp' = None,
      mtx' = False\<rparr>"

text \<open>
  \<open>std::lock_guard<std::mutex> locker(mtx_)\<close>: locking a \<open>std::mutex\<close> that the calling thread
  owns is undefined. \<open>Log::flush\<close> takes the lock, flushes the stream and gives the lock back.
\<close>

definition lock_guard :: "Log \<Rightarrow> error + Log" where
  "lock_guard lg = (if mtx' lg then Inl UndefinedBehaviour else Inr (lg\<lparr>mtx' := True\<rparr>))"

definition Log_flush :: "Log \<Rightarrow> error + Log" where
  "Log_flush lg = (case lock_guard lg of Inl e \<Rightarrow> Inl e | Inr lg1 \<Rightarrow> Inr lg)"

text \<open>
  \<open>Log::init\<close> for the local time \<open>t\<close>. \<open>fopen\<close> tells whether the file system opens a name
  for appending, at the first attempt or at the one that follows \<open>mkdir\<close>.
\<close>

definition Log_init :: "nat \<Rightarrow> (string \<Rightarrow> bool) \<Rightarrow> Log \<Rightarrow> string \<Rightarrow> string \<Rightarrow> tm \<Rightarrow> error + Log" where
  "Log_init LOG_PATH_LEN fopen lg path suffix t =
     (let lg1 = lg\<lparr>path' := path, suffix' := suffix, lineCount' := 0\<rparr>;
          fileName = snprintf (LOG_PATH_LEN - 1)
                       (path' lg1 @ ''/'' @ fmt_0d 4 (tm_year t + 1900) @ ''_''
                          @ fmt_0d 2 (tm_mon t + 1) @ ''_'' @ fmt_0d 2 (tm_mday t) @ suffix' lg1);
          lg2 = lg1\<lparr>toDay' := tm_mday t\<rparr>
      in case lock_guard lg2 of
           Inl e \<Rightarrow> Inl e
         | Inr lg3 \<Rightarrow>
             (case (if fp' lg3 = None then Inr lg3 else Log_flush lg3) of
                Inl e \<Rightarrow> Inl e
              | Inr lg4 \<Rightarrow>
                  if fopen fileName then Inr (lg4\<lparr>fp' := Some fileName, mtx' := False\<rparr>)
                  else Inl AssertFailed))"

text \<open>
  The first block of \<open>Log::write\<close>, which rolls the file, for the local time \<open>t\<close> of the call.
  \<open>roll_due\<close> is the condition of its \<open>if\<close>, where \<open>lineCount_ % MAX_LINES_\<close> is
  undefined when it is evaluated with \<open>MAX_LINES_\<close> at 0. \<open>Log_write_newFile\<close> is what the
  block writes to \<open>newFile\<close>, the name that it hands to \<open>fopen\<close>.
\<close>

definition roll_due :: "Log \<Rightarrow> tm \<Rightarrow> bool" where
  "roll_due lg t \<longleftrightarrow>
     toDay' lg \<noteq> tm_mday t \<or> (lineCount' lg \<noteq> 0 \<and> lineCount' lg smod MAX_LINES' lg = 0)"

definition Log_write_newFile :: "nat \<Rightarrow> Log \<Rightarrow> tm \<Rightarrow> string" where
  "Log_write_newFile LOG_NAME_LEN lg t =
     (let tail = snprintf 36
                   (path' lg @ ''.'' @ fmt_0d 4 (toDay' lg sdiv 10000) @ ''_''
                      @ fmt_0d 2 (toDay' lg smod 10000 sdiv 100) @ ''_''
                      @ fmt_0d 2 (toDay' lg smod 100) @ suffix' lg)
      in if toDay' lg \<noteq> tm_mday t
         then snprintf (LOG_NAME_LEN - 72) (path' lg @ ''/'' @ tail @ suffix' lg)
         else snprintf (LOG_NAME_LEN - 72)
                (path' lg @ ''/'' @ tail @ ''.'' @ to_string (lineCount' lg sdiv MAX_LINES' lg)
                   @ suffix' lg))"

definition Log_write_roll :: "nat \<Rightarrow> (string \<Rightarrow> bool) \<Rightarrow> Log \<Rightarrow> tm \<Rightarrow> error + Log" where
  "Log_write_roll LOG_NAME_LEN fopen lg t =
     (case lock_guard lg of
        Inl e \<Rightarrow> Inl e
      | Inr lg1 \<Rightarrow>
          if toDay' lg1 = tm_mday t \<and> lineCount' lg1 \<noteq> 0 \<and> MAX_LINES' lg1 = 0
          then Inl UndefinedBehaviour
          else if roll_due lg1 t
          then
            let newFile = Log_write_newFile LOG_NAME_LEN lg1 t;
                lg2 = (if toDay' lg1 \<noteq> tm_mday t
                       then lg1\<lparr>toDay' := tm_mday t, lineCount' := 0\<rparr> else lg1)
            in case Log_flush lg2 of
                 Inl e \<Rightarrow> Inl e
               | Inr lg3 \<Rightarrow>
                   if fopen newFile then Inr (lg3\<lparr>fp' := Some newFile, mtx' := False\<rparr>)
                   else Inl AssertFailed
          else Inr (lg1\<lparr>mtx' := False\<rparr>))"

text \<open>The layout of the specification: \<open><path>/YYYY_MM_DD<suffix>\<close> for the date of \<open>t\<close>.\<close>

definition date_stamp_name :: "string \<Rightarrow> string \<Rightarrow> tm \<Rightarrow> string" where
  "date_stamp_name path suffix t =
     path @ ''/'' @ fmt_0d 4 (tm_year t + 1900) @ ''_'' @ fmt_0d 2 (tm_mon t + 1) @ ''_''
       @ fmt_0d 2 (tm_mday t) @ suffix"

section \<open>SQL connection pool (code/pool/sqlconnpool.cpp)\<close>

text \<open>
  A \<open>MYSQL*\<close> is \<open>None\<close> for \<open>nullptr\<close> or a handle. The queue is a list with its front
  first, the semaphore is its count. One thread runs the calls: \<open>sem_wait\<close> on a count of 0
  does not return, which is the outcome \<open>Blocked\<close>.
\<close>

type_synonym MYSQL_ptr = "nat option"

record SqlConnPool =
  MAX_CONN' :: int
  connQue' :: "MYSQL_ptr list"
  semId' :: nat

datatype 'a call = Returned 'a | Blocked

definition GetConn :: "SqlConnPool \<Rightarrow> MYSQL_ptr call \<times> SqlConnPool" where
  "GetConn p =
     (if connQue' p = [] then (Returned None, p)
      else if semId' p = 0 then (Blocked, p)
      else
        let p1 = p\<lparr>semId' := semId' p - 1\<rparr>;
            conn = hd (connQue' p1)
        in (Returned conn, p1\<lparr>connQue' := tl (connQue' p1)\<rparr>))"

definition FreeConn :: "SqlConnPool \<Rightarrow> MYSQL_ptr \<Rightarrow> error + SqlConnPool" where
  "FreeConn p conn =
     (if conn = None then Inl AssertFailed
      else Inr (p\<lparr>connQue' := connQue' p @ [conn], semId' := semId' p + 1\<rparr>))"

definition GetFreeConnCount :: "SqlConnPool \<Rightarrow> int" where
  "GetFreeConnCount p = int (length (connQue' p))"

text \<open>
  \<open>Init\<close> makes \<open>connSize\<close> connections. What the MySQL client library answers to the calls of
  one pass of its loop is one of three things: \<open>mysql_init\<close> gives \<open>nullptr\<close> (the assertion
  fails), \<open>mysql_real_connect\<close> gives \<open>nullptr\<close> (logged, and \<open>nullptr\<close> is queued), or the
  connection is made. The list holds the answers of the passes, and its length is \<open>connSize\<close>.
  The pool object has static storage, so its members start at zero.
\<close>

datatype connect_result = InitNull | ConnectNull | Connected nat

definition SqlConnPool_static :: SqlConnPool where
  "SqlConnPool_static = \<lparr>MAX_CONN' = 0, connQue' = [], semId' = 0\<rparr>"

fun Init_loop :: "connect_result list \<Rightarrow> MYSQL_ptr list \<Rightarrow> error + MYSQL_ptr list" where
  "Init_loop [] q = Inr q"
| "Init_loop (InitNull # rs) q = Inl AssertFailed"
| "Init_loop (ConnectNull # rs) q = Init_loop rs (q @ [None])"
| "Init_loop (Connected h # rs) q = Init_loop rs (q @ [Some h])"

definition SqlConnPool_Init :: "SqlConnPool \<Rightarrow> connect_result list \<Rightarrow> error + SqlConnPool" where
  "SqlConnPool_Init p rs =
     (let connSize = int (length rs)
      in if connSize > 0
         then (case Init_loop rs (connQue' p) of
                 Inl e \<Rightarrow> Inl e
               | Inr q \<Rightarrow> Inr (p\<lparr>connQue' := q, MAX_CONN' := connSize, semId' := nat connSize\<rparr>))
         else Inl AssertFailed)"

text \<open>The states of the pool after \<open>Init\<close> and any calls of \<open>GetConn\<close> and \<open>FreeConn\<close>.\<close>

inductive pool_state :: "SqlConnPool \<Rightarrow> bool" where
  after_Init: "SqlConnPool_Init SqlConnPool_static rs = Inr p \<Longrightarrow> pool_state p"
| after_GetConn: "pool_state p \<Longrightarrow> GetConn p = (Returned conn, p1) \<Longrightarrow> pool_state p1"
| after_FreeConn: "pool_state p \<Longrightarrow> FreeConn p conn = Inr p1 \<Longrightarrow> pool_state p1"

section \<open>Response builder (code/http/httpresponse.cpp)\<close>

text \<open>
  The members of \<open>struct stat\<close> that the builder reads, and the file system as the builder's
  calls see it: \<open>stat\<close> (\<open>None\<close> when it returns \<open>-1\<close>), whether \<open>open\<close> gives a descriptor,
  and whether \<open>mmap\<close> maps the file.
\<close>

record file_stat =
  st_mode :: "32 word"
  st_size :: nat

record file_system =
  fs_stat :: "string \<Rightarrow> file_stat option"
  fs_open :: "string \<Rightarrow> bool"
  fs_mmap :: "string \<Rightarrow> bool"

definition S_IFMT :: "32 word" where
  "S_IFMT = 0xF000"

definition S_IFDIR :: "32 word" where
  "S_IFDIR = 0x4000"

definition S_IROTH :: "32 word" where
  "S_IROTH = 0x4"

definition S_ISDIR :: "32 word \<Rightarrow> bool" where
  "S_ISDIR m \<longleftrightarrow> (m AND S_IFMT) = S_IFDIR"

datatype mm_file = NullPtr | MAP_FAILED | Mapped string

record HttpResponse =
  code' :: int
  isKeepAlive' :: bool
  path' :: string
  srcDir' :: string
  mmFile' :: mm_file
  mmFileStat' :: file_stat

definition CODE_STATUS :: "int \<rightharpoonup> string" where
  "CODE_STATUS =
     map_of [(200, ''OK''), (400, ''Bad Request''), (403, ''Forbidden''), (404, ''Not Found''),
             (500, ''Internal Server Error'')]"

definition CODE_PATH :: "int \<rightharpoonup> string" where
  "CODE_PATH =
     map_of [(400, ''/400.html''), (403, ''/403.html''), (404, ''/404.html''),
             (500, ''/500.html'')]"

definition SUFFIX_TYPE :: "string \<rightharpoonup> string" where
  "SUFFIX_TYPE =
     map_of [(''.html'', ''text/html''), (''.xml'', ''text/xml''),
             (''.xhtml'', ''application/xhtml+xml''), (''.txt'', ''text/plain''),
             (''.rtf'', ''application/rtf''), (''.pdf'', ''application/pdf''),
             (''.word'', ''application/msword''), (''.png'', ''image/png''),
             (''.gif'', ''image/gif''), (''.jpg'', ''image/jpeg''), (''.jpeg'', ''image/jpeg''),
             (''.au'', ''audio/basic''), (''.mpeg'', ''video/mpeg''), (''.mpg'', ''video/mpeg''),
             (''.avi'', ''video/x-msvideo''), (''.gz'', ''application/x-gzip''),
             (''.tar'', ''application/x-tar''), (''.css'', ''text/css''),
             (''.js'', ''text/javascript'')]"

definition UnmapFile :: "HttpResponse \<Rightarrow> HttpResponse" where
  "UnmapFile r = (if mmFile' r \<noteq> NullPtr then r\<lparr>mmFile' := NullPtr\<rparr> else r)"

definition HttpResponse_Init ::
  "HttpResponse \<Rightarrow> string \<Rightarrow> string \<Rightarrow> bool \<Rightarrow> int \<Rightarrow> error + HttpResponse" where
  "HttpResponse_Init r srcDir path isKeepAlive code =
     (if srcDir = [] then Inl AssertFailed
      else
        let r1 = (if mmFile' r \<noteq> NullPtr then UnmapFile r else r)
        in Inr (r1\<lparr>code' := code, isKeepAlive' := isKeepAlive, srcDir' := srcDir, path' := path,
                   mmFile' := NullPtr, mmFileStat' := \<lparr>st_mode = 0, st_size = 0\<rparr>\<rparr>))"

text \<open>
  \<open>stat(name, &mmFileStat_)\<close>: whether it returned a negative value, and the response with
  \<open>mmFileStat_\<close> filled in when it did not.
\<close>

definition stat_into :: "file_system \<Rightarrow> string \<Rightarrow> HttpResponse \<Rightarrow> bool \<times> HttpResponse" where
  "stat_into fs name r =
     (case fs_stat fs name of
        None \<Rightarrow> (True, r)
      | Some st \<Rightarrow> (False, r\<lparr>mmFileStat' := st\<rparr>))"

definition ErrorHtml' :: "file_system \<Rightarrow> HttpResponse \<Rightarrow> HttpResponse" where
  "ErrorHtml' fs r =
     (case CODE_PATH (code' r) of
        Some p \<Rightarrow>
          let r1 = r\<lparr>path' := p\<rparr>;
              (failed, r2) = stat_into fs (srcDir' r1 @ path' r1) r1
          in if failed then r2\<lparr>code' := 404\<rparr> else r2
      | None \<Rightarrow> r)"

text \<open>The first statement of \<open>MakeResponse\<close>, which settles the status code.\<close>

definition MakeResponse_status :: "file_system \<Rightarrow> HttpResponse \<Rightarrow> HttpResponse" where
  "MakeResponse_status fs r =
     (let (failed, r1) = stat_into fs (srcDir' r @ path' r) r
      in if failed \<or> S_ISDIR (st_mode (mmFileStat' r1)) then r1\<lparr>code' := 404\<rparr>
         else if (st_mode (mmFileStat' r1) AND S_IROTH) = 0 then r1\<lparr>code' := 403\<rparr>
         else if code' r1 = - 1 then r1\<lparr>code' := 200\<rparr>
         else r1)"

definition AddStateLine' :: "HttpResponse \<Rightarrow> Buffer \<Rightarrow> error + (HttpResponse \<times> Buffer)" where
  "AddStateLine' r buff =
     (let (status, r1) =
            (case CODE_STATUS (code' r) of
               Some s \<Rightarrow> (s, r)
             | None \<Rightarrow> (the (CODE_STATUS 400), r\<lparr>code' := 400\<rparr>))
      in case Append buff (''HTTP/1.1 '' @ to_string (code' r1) @ '' '' @ status @ CRLF) of
           Inl e \<Rightarrow> Inl e
         | Inr buff1 \<Rightarrow> Inr (r1, buff1))"

text \<open>\<open>path_.substr(idx)\<close> has \<open>idx < size()\<close> here and cannot throw.\<close>

definition GetFileType' :: "HttpResponse \<Rightarrow> string" where
  "GetFileType' r =
     (let idx = find_last_of (path' r) (CHR ''.'')
      in if idx \<noteq> npos
         then (case SUFFIX_TYPE (drop idx (path' r)) of
                 Some ty \<Rightarrow> ty
               | None \<Rightarrow> ''text/plain'')
         else ''text/plain'')"

text \<open>A run of \<open>Append\<close> calls stops at the first one that fails.\<close>

fun Append_all :: "Buffer \<Rightarrow> string list \<Rightarrow> error + Buffer" where
  "Append_all buff [] = Inr buff"
| "Append_all buff (s # ss) =
     (case Append buff s of Inl e \<Rightarrow> Inl e | Inr buff1 \<Rightarrow> Append_all buff1 ss)"

definition AddHeader' :: "HttpResponse \<Rightarrow> Buffer \<Rightarrow> error + Buffer" where
  "AddHeader' r buff =
     Append_all buff
       ([''Connection: '']
        @ (if isKeepAlive' r
           then [''keep-alive'' @ CRLF, ''Keep-Alive: max=6, timeout=120'' @ CRLF]
           else [''close'' @ CRLF])
        @ [''Content-Type: '' @ GetFileType' r @ CRLF])"

definition ErrorContent :: "HttpResponse \<Rightarrow> Buffer \<Rightarrow> string \<Rightarrow> error + Buffer" where
  "ErrorContent r buff message =
     (let status = (case CODE_STATUS (code' r) of Some s \<Rightarrow> s | None \<Rightarrow> ''Bad Request'');
          body = ''<html><title>Error</title>''
                   @ ''<body bgcolor='' @ [CHR 0x22] @ ''ffffff'' @ [CHR 0x22] @ ''>''
                   @ to_string (code' r) @ '' : '' @ status @ [CHR 0x0A]
                   @ ''<p>'' @ message @ ''</p>''
                   @ ''<hr><em> Liu's Web Server</em></body></html>''
      in Append_all buff
           [''Content-Length: '' @ to_string (int (length body)) @ CRLF,
            ''Content-Type: text/html'' @ CRLF,
            CRLF,
            body])"

definition AddContent' ::
  "file_system \<Rightarrow> HttpResponse \<Rightarrow> Buffer \<Rightarrow> error + (HttpResponse \<times> Buffer)" where
  "AddContent' fs r buff =
     (if \<not> fs_open fs (srcDir' r @ path' r)
      then (case ErrorContent r buff ''File Not Found!'' of
              Inl e \<Rightarrow> Inl e
            | Inr buff1 \<Rightarrow> Inr (r, buff1))
      else
        let r1 = r\<lparr>mmFile' := (if fs_mmap fs (srcDir' r @ path' r)
                               then Mapped (srcDir' r @ path' r) else MAP_FAILED)\<rparr>
        in case (if mmFile' r1 = MAP_FAILED then ErrorContent r1 buff ''File Not Found!''
                 else Inr buff) of
             Inl e \<Rightarrow> Inl e
           | Inr buff1 \<Rightarrow>
               (case Append_all buff1
                       [''Content-Length: '' @ to_string (int (st_size (mmFileStat' r1))) @ CRLF,
                        CRLF] of
                  Inl e \<Rightarrow> Inl e
                | Inr buff2 \<Rightarrow> Inr (r1, buff2)))"

definition MakeResponse ::
  "file_system \<Rightarrow> HttpResponse \<Rightarrow> Buffer \<Rightarrow> error + (HttpResponse \<times> Buffer)" where
  "MakeResponse fs r buff =
     (let r1 = ErrorHtml' fs (MakeResponse_status fs r)
      in case AddStateLine' r1 buff of
           Inl e \<Rightarrow> Inl e
         | Inr (r2, buff1) \<Rightarrow>
             (case AddHeader' r2 buff1 of
                Inl e \<Rightarrow> Inl e
              | Inr buff2 \<Rightarrow> AddContent' fs r2 buff2))"

text \<open>
  The status algorithm in the words of the specification: the status from the requested file,
  then the error page for the four error codes, and 404 when that page is missing.
\<close>

definition spec_status :: "file_stat option \<Rightarrow> int \<Rightarrow> int" where
  "spec_status st code =
     (case st of
        None \<Rightarrow> 404
      | Some s \<Rightarrow>
          if S_ISDIR (st_mode s) then 404
          else if (st_mode s AND S_IROTH) = 0 then 403
          else if code = - 1 then 200
          else code)"

definition spec_error_page :: "int \<Rightarrow> string option" where
  "spec_error_page code =
     (if code = 400 then Some ''/400.html''
      else if code = 403 then Some ''/403.html''
      else if code = 404 then Some ''/404.html''
      else if code = 500 then Some ''/500.html''
      else None)"

definition spec_build :: "file_system \<Rightarrow> string \<Rightarrow> string \<Rightarrow> int \<Rightarrow> int \<times> string" where
  "spec_build fs srcDir path code =
     (let status = spec_status (fs_stat fs (srcDir @ path)) code
      in case spec_error_page status of
           None \<Rightarrow> (status, path)
         | Some page \<Rightarrow> (if fs_stat fs (srcDir @ page) = None then 404 else status, page))"

section \<open>HTTP request parser (code/http/httprequest.cpp)\<close>

datatype PARSE_STATE = REQUEST_LINE | HEADERS | BODY | FINISH

text \<open>The two \<open>std::unordered_map<std::string, std::string>\<close> members are partial maps.\<close>

record HttpRequest =
  state' :: PARSE_STATE
  method' :: string
  path' :: string
  version' :: string
  body' :: string
  header' :: "string \<rightharpoonup> string"
  post' :: "string \<rightharpoonup> string"

definition HttpRequest_Init :: HttpRequest where
  "HttpRequest_Init =
     \<lparr>state' = REQUEST_LINE, method' = [], path' = [], version' = [], body' = [],
      header' = Map.empty, post' = Map.empty\<rparr>"

text \<open>
  \<open>operator[]\<close> of \<open>std::unordered_map\<close>: a key that is absent is inserted with the empty
  string before its value is returned.
\<close>

definition map_index :: "(string \<rightharpoonup> string) \<Rightarrow> string \<Rightarrow> string \<times> (string \<rightharpoonup> string)" where
  "map_index m k = (case m k of None \<Rightarrow> ([], m(k \<mapsto> [])) | Some v \<Rightarrow> (v, m))"

text \<open>
  The two regular expressions, matched by \<open>regex_match\<close> against the whole line. Their groups
  exclude the character that follows them, so a match is unique and is found from left to right.
  \<open>^([^ ]*) ([^ ]*) HTTP/([^ ]*)$\<close> yields the three groups. In \<open>^([^:]*): ?(.*)$\<close> the
  optional blank is taken when it is there, and \<open>.\<close> of the ECMAScript grammar matches every
  character but the line terminators, here \<open>\n\<close> and \<open>\r\<close>.
\<close>

definition match_request_line :: "string \<Rightarrow> (string \<times> string \<times> string) option" where
  "match_request_line line =
     (let g1 = takeWhile (\<lambda>c. c \<noteq> CHR '' '') line;
          r1 = dropWhile (\<lambda>c. c \<noteq> CHR '' '') line
      in case r1 of
           [] \<Rightarrow> None
         | _ # r1' \<Rightarrow>
             let g2 = takeWhile (\<lambda>c. c \<noteq> CHR '' '') r1';
                 r2 = dropWhile (\<lambda>c. c \<noteq> CHR '' '') r1'
             in if take 6 r2 = '' HTTP/'' \<and> CHR '' '' \<notin> set (drop 6 r2)
                then Some (g1, g2, drop 6 r2)
                else None)"

definition line_terminator :: "char \<Rightarrow> bool" where
  "line_terminator c \<longleftrightarrow> c = CHR 0x0A \<or> c = CHR 0x0D"

definition match_header :: "string \<Rightarrow> (string \<times> string) option" where
  "match_header line =
     (let g1 = takeWhile (\<lambda>c. c \<noteq> CHR '':'') line;
          r1 = dropWhile (\<lambda>c. c \<noteq> CHR '':'') line
      in case r1 of
           [] \<Rightarrow> None
         | _ # r1' \<Rightarrow>
             if list_ex line_terminator r1' then None
             else Some (g1, case r1' of [] \<Rightarrow> [] | c # r2 \<Rightarrow> if c = CHR '' '' then r2 else r1'))"

text \<open>
  The header syntax of the specification, \<open>^([^:]+): ?(.*)$\<close>: a match of the code's
  expression whose key is not empty.
\<close>

definition spec_header_syntax :: "string \<Rightarrow> bool" where
  "spec_header_syntax line \<longleftrightarrow>
     (case match_header line of Some (key, val) \<Rightarrow> key \<noteq> [] | None \<Rightarrow> False)"

definition DEFAULT_HTML :: "string list" where
  "DEFAULT_HTML =
     [''/index'', ''/register'', ''/login'', ''/welcome'', ''/video'', ''/picture'',
      ''/favicon.ico'']"

definition DEFAULT_HTML_TAG :: "string \<rightharpoonup> int" where
  "DEFAULT_HTML_TAG = map_of [(''/register.html'', 0), (''/login.html'', 1)]"

definition ParsePath' :: "HttpRequest \<Rightarrow> error + HttpRequest" where
  "ParsePath' req =
     (if path' req = ''/''
      then Inr (req\<lparr>path' := ''/index.html''\<rparr>)
      else
        let last_slash = find_last_of (path' req) (CHR ''/'')
        in case substr (path' req) last_slash npos of
             Inl e \<Rightarrow> Inl e
           | Inr last_part \<Rightarrow>
               if last_part \<in> set DEFAULT_HTML
               then Inr (req\<lparr>path' := path' req @ ''.html''\<rparr>)
               else Inr req)"

definition ParseRequestLine' :: "HttpRequest \<Rightarrow> string \<Rightarrow> error + (bool \<times> HttpRequest)" where
  "ParseRequestLine' req line =
     (case match_request_line line of
        Some (g1, g2, g3) \<Rightarrow>
          let req1 = req\<lparr>method' := g1, path' := g2, version' := g3\<rparr>
          in if method' req1 = ''GET'' \<or> method' req1 = ''POST''
             then (case ParsePath' req1 of Inl e \<Rightarrow> Inl e | Inr req2 \<Rightarrow> Inr (True, req2))
             else Inr (False, req1)
      | None \<Rightarrow> Inr (False, req))"

definition ParseHeader' :: "HttpRequest \<Rightarrow> string \<Rightarrow> HttpRequest" where
  "ParseHeader' req line =
     (case match_header line of
        Some (key, val) \<Rightarrow> req\<lparr>header' := (header' req)(key \<mapsto> val)\<rparr>
      | None \<Rightarrow> req)"

text \<open>
  \<open>ConverHex\<close> compares a \<open>char\<close> with character literals. The result is the same whether
  \<open>char\<close> is signed or not: a byte above 127 is in none of the three ranges either way.
\<close>

definition ConverHex :: "char \<Rightarrow> int" where
  "ConverHex ch =
     (let c = (of_char ch :: int)
      in if c \<ge> of_char CHR ''0'' \<and> c \<le> of_char CHR ''9'' then c - of_char CHR ''0''
         else if c \<ge> of_char CHR ''a'' \<and> c \<le> of_char CHR ''f'' then c - of_char CHR ''a'' + 10
         else if c \<ge> of_char CHR ''A'' \<and> c \<le> of_char CHR ''F'' then c - of_char CHR ''A'' + 10
         else - 1)"

text \<open>
  The loop of \<open>ParseFromUrlencoded_\<close>. The \<open>int\<close> counters \<open>i\<close> and \<open>j\<close> start at 0 and
  only grow, so they are natural numbers; the count \<open>i - j\<close> handed to \<open>substr\<close> is converted
  to \<open>size_t\<close> as C++ does. \<open>/\<close> and \<open>%\<close> on \<open>int\<close> truncate towards zero (\<open>sdiv\<close>,
  \<open>smod\<close>). \<open>body_[k]\<close> is undefined for \<open>k > size()\<close>, and so is storing a non-zero
  character at \<open>k = size()\<close>: after a \<open>%\<close> with fewer than two characters behind it the loop
  does one or the other.
\<close>

function ParseFromUrlencoded_loop ::
  "string \<Rightarrow> (string \<rightharpoonup> string) \<Rightarrow> string \<Rightarrow> nat \<Rightarrow> nat
     \<Rightarrow> error + (string \<times> (string \<rightharpoonup> string) \<times> string \<times> nat \<times> nat)" where
  "ParseFromUrlencoded_loop body post key i j =
     (if i < length body
      then
        let ch = body ! i
        in if ch = CHR ''=''
           then (case substr body j (size_t_of_int (int i - int j)) of
                   Inl e \<Rightarrow> Inl e
                 | Inr key1 \<Rightarrow> ParseFromUrlencoded_loop body post key1 (i + 1) (i + 1))
           else if ch = CHR ''+''
           then ParseFromUrlencoded_loop (body[i := CHR '' '']) post key (i + 1) j
           else if ch = CHR ''%''
           then
             if i + 2 < length body
             then
               let num = ConverHex (body ! (i + 1)) * 16 + ConverHex (body ! (i + 2));
                   body1 = body[i + 2 := char_of (num smod 10 + of_char CHR ''0'')];
                   body2 = body1[i + 1 := char_of (num sdiv 10 + of_char CHR ''0'')]
               in ParseFromUrlencoded_loop body2 post key (i + 2 + 1) j
             else Inl UndefinedBehaviour
           else if ch = CHR ''&''
           then (case substr body j (size_t_of_int (int i - int j)) of
                   Inl e \<Rightarrow> Inl e
                 | Inr val \<Rightarrow>
                     ParseFromUrlencoded_loop body (post(key \<mapsto> val)) [] (i + 1) (i + 1))
           else ParseFromUrlencoded_loop body post key (i + 1) j
      else Inr (body, post, key, i, j))"
  by pat_completeness auto
termination
  by (relation "measure (\<lambda>(body, post, key, i, j). length body - i)") auto

definition ParseFromUrlencoded' :: "HttpRequest \<Rightarrow> error + HttpRequest" where
  "ParseFromUrlencoded' req =
     (if body' req = [] then Inr req
      else
        case ParseFromUrlencoded_loop (body' req) (post' req) [] 0 0 of
          Inl e \<Rightarrow> Inl e
        | Inr (body, post, key, i, j) \<Rightarrow>
            if key = [] \<and> j < i
            then (case substr body j (size_t_of_int (int i - int j)) of
                    Inl e \<Rightarrow> Inl e
                  | Inr key1 \<Rightarrow> Inr (req\<lparr>body' := body, post' := post(key1 \<mapsto> [])\<rparr>))
            else if key \<noteq> [] \<and> j < i
            then (case substr body j (size_t_of_int (int i - int j)) of
                    Inl e \<Rightarrow> Inl e
                  | Inr val \<Rightarrow> Inr (req\<lparr>body' := body, post' := post(key \<mapsto> val)\<rparr>))
            else Inr (req\<lparr>body' := body, post' := post\<rparr>))"

text \<open>
  \<open>UserVerify\<close> talks to MySQL through a connection leased from the pool. That part is a
  parameter \<open>db\<close>: what the lease, its \<open>assert(sql)\<close> and the queries come to for a name, a
  password and the login flag. The test for an empty name or password is the source's.
\<close>

type_synonym user_db = "string \<Rightarrow> string \<Rightarrow> bool \<Rightarrow> error + bool"

definition UserVerify :: "user_db \<Rightarrow> string \<Rightarrow> string \<Rightarrow> bool \<Rightarrow> error + bool" where
  "UserVerify db name pwd isLogin = (if name = [] \<or> pwd = [] then Inr False else db name pwd isLogin)"

definition ParsePost' :: "user_db \<Rightarrow> HttpRequest \<Rightarrow> error + HttpRequest" where
  "ParsePost' db req =
     (if method' req = ''POST''
      then
        let (content_type, h) = map_index (header' req) ''Content-Type'';
            req1 = req\<lparr>header' := h\<rparr>
        in if content_type = ''application/x-www-form-urlencoded''
           then
             case ParseFromUrlencoded' req1 of
               Inl e \<Rightarrow> Inl e
             | Inr req2 \<Rightarrow>
                 (case DEFAULT_HTML_TAG (path' req2) of
                    None \<Rightarrow> Inr req2
                  | Some tag \<Rightarrow>
                      if tag = 0 \<or> tag = 1
                      then
                        let isLogin = (tag = 1);
                            (name, p1) = map_index (post' req2) ''username'';
                            (pwd, p2) = map_index p1 ''password'';
                            req3 = req2\<lparr>post' := p2\<rparr>
                        in case UserVerify db name pwd isLogin of
                             Inl e \<Rightarrow> Inl e
                           | Inr ok \<Rightarrow>
                               if ok then Inr (req3\<lparr>path' := ''/welcome.html''\<rparr>)
                               else Inr (req3\<lparr>path' := ''/error.html''\<rparr>)
                      else Inr req2)
           else Inr req1
      else Inr req)"

definition ParseBody' :: "user_db \<Rightarrow> HttpRequest \<Rightarrow> string \<Rightarrow> error + HttpRequest" where
  "ParseBody' db req line = ParsePost' db (req\<lparr>body' := line\<rparr>)"

text \<open>
  One pass through the body of the \<open>while\<close> loop of \<open>parse\<close> ends in one of four ways:
  the loop goes on, \<open>break\<close> leaves it, \<open>return false\<close> leaves the function, or an error
  does. \<open>line_end\<close> is an offset from \<open>Peek()\<close>.
\<close>

datatype iteration =
    Continue HttpRequest Buffer
  | Break HttpRequest Buffer
  | Return bool HttpRequest Buffer
  | Throw error

definition parse_iteration :: "user_db \<Rightarrow> HttpRequest \<Rightarrow> Buffer \<Rightarrow> iteration" where
  "parse_iteration db req buff =
     (let line_end = search (Peek buff) CRLF
      in if line_end = length (Peek buff)
         then Break req buff
         else
           let line = take line_end (Peek buff)
           in case RetrieveUntil buff (readPos' buff + line_end + 2) of
                Inl e \<Rightarrow> Throw e
              | Inr buff1 \<Rightarrow>
                  (case state' req of
                     REQUEST_LINE \<Rightarrow>
                       (case ParseRequestLine' req line of
                          Inl e \<Rightarrow> Throw e
                        | Inr (ok, req1) \<Rightarrow>
                            if \<not> ok then Return False req1 buff1
                            else Continue (req1\<lparr>state' := HEADERS\<rparr>) buff1)
                   | HEADERS \<Rightarrow>
                       if line = []
                       then
                         if header' req ''Content-Length'' \<noteq> None
                         then Continue (req\<lparr>state' := BODY\<rparr>) buff1
                         else Continue (req\<lparr>state' := FINISH\<rparr>) buff1
                       else Continue (ParseHeader' req line) buff1
                   | BODY \<Rightarrow>
                       (case ParseBody' db req line of
                          Inl e \<Rightarrow> Throw e
                        | Inr req1 \<Rightarrow> Continue (req1\<lparr>state' := FINISH\<rparr>) buff1)
                   | FINISH \<Rightarrow> Continue req buff1))"

text \<open>
  The loop, and \<open>parse\<close>: the value returned, the request and the buffer. Each pass that goes
  on has taken a line and its CRLF from the buffer, which bounds the number of passes.
\<close>

function parse_loop ::
  "user_db \<Rightarrow> HttpRequest \<Rightarrow> Buffer \<Rightarrow> error + (bool \<times> HttpRequest \<times> Buffer)" where
  "parse_loop db req buff =
     (if ReadableBytes buff > 0 \<and> state' req \<noteq> FINISH
      then
        case parse_iteration db req buff of
          Continue req1 buff1 \<Rightarrow> parse_loop db req1 buff1
        | Break req1 buff1 \<Rightarrow> Inr (True, req1, buff1)
        | Return r req1 buff1 \<Rightarrow> Inr (r, req1, buff1)
        | Throw e \<Rightarrow> Inl e
      else Inr (True, req, buff))"
  by pat_completeness auto
termination
proof (relation "measure (\<lambda>(db, req, buff). ReadableBytes buff)")
  show "wf (measure (\<lambda>(db, req, buff). ReadableBytes buff))" by simp
next
  fix db req buff req1 buff1
  assume "parse_iteration db req buff = Continue req1 buff1"
  then obtain n where "RetrieveUntil buff (readPos' buff + n + 2) = Inr buff1"
    by (auto simp: parse_iteration_def Let_def
        split: if_splits sum.splits PARSE_STATE.splits prod.splits)
  then have r: "Retrieve buff (n + 2) = Inr buff1"
    by (auto simp: RetrieveUntil_def split: if_splits)
  define m :: int where "m = 2 ^ 64"
  define R where "R = (int (writePos' buff) - int (readPos' buff)) mod m"
  define p where "p = size_t_of_int (int (readPos' buff) + int (n + 2))"
  have m: "0 < m" by (simp add: m_def)
  have R: "0 \<le> R" "R < m" using m by (simp_all add: R_def)
  have rb: "ReadableBytes buff = nat R"
    by (simp add: ReadableBytes_def size_t_of_int_def R_def m_def)
  have p: "int p = (int (readPos' buff) + int (n + 2)) mod m"
    using m by (simp add: p_def size_t_of_int_def m_def)
  from r have le: "n + 2 \<le> nat R"
    and b1: "buff1 = (if p = writePos' buff then buff\<lparr>readPos' := 0, writePos' := 0\<rparr>
                      else buff\<lparr>readPos' := p\<rparr>)"
    by (auto simp: Retrieve_def rb p_def Let_def split: if_splits)
  have "ReadableBytes buff1 < ReadableBytes buff"
  proof (cases "p = writePos' buff")
    case True
    with b1 have "ReadableBytes buff1 = 0"
      by (simp add: ReadableBytes_def size_t_of_int_def)
    with le rb show ?thesis by simp
  next
    case False
    with b1 have "ReadableBytes buff1 = nat ((int (writePos' buff) - int p) mod m)"
      by (simp add: ReadableBytes_def size_t_of_int_def m_def)
    also have "(int (writePos' buff) - int p) mod m
                 = (int (writePos' buff) - (int (readPos' buff) + int (n + 2))) mod m"
      unfolding p by (rule mod_diff_right_eq)
    also have "\<dots> = (int (writePos' buff) - int (readPos' buff) - int (n + 2)) mod m"
      by (simp add: algebra_simps)
    also have "\<dots> = (R - int (n + 2)) mod m"
      unfolding R_def by (rule mod_diff_left_eq [symmetric])
    also have "\<dots> = R - int (n + 2)"
      using le R by (intro mod_pos_pos_trivial) auto
    finally have "ReadableBytes buff1 = nat (R - int (n + 2))" .
    with le rb show ?thesis by auto
  qed
  then show "((db, req1, buff1), (db, req, buff)) \<in> measure (\<lambda>(db, req, buff). ReadableBytes buff)"
    by simp
qed

definition parse :: "user_db \<Rightarrow> HttpRequest \<Rightarrow> Buffer \<Rightarrow> error + (bool \<times> HttpRequest \<times> Buffer)" where
  "parse db req buff =
     (if ReadableBytes buff \<le> 0 then Inr (False, req, buff) else parse_loop db req buff)"

section \<open>Evaluating digits and padding\<close>

lemma replicate_numeral: "replicate (numeral v) x = x # replicate (numeral v - 1) x"
  by (simp add: numeral_eq_Suc)

lemma digit_chars:
  "char_of (48 :: int) = CHR ''0''" "char_of (49 :: int) = CHR ''1''"
  "char_of (50 :: int) = CHR ''2''" "char_of (51 :: int) = CHR ''3''"
  "char_of (52 :: int) = CHR ''4''" "char_of (53 :: int) = CHR ''5''"
  "char_of (54 :: int) = CHR ''6''" "char_of (55 :: int) = CHR ''7''"
  "char_of (56 :: int) = CHR ''8''" "char_of (57 :: int) = CHR ''9''"
  by (simp_all add: char_of_def)

section \<open>Properties of the byte buffer\<close>

text \<open>Where no sum or difference leaves \<open>size_t\<close>, the arithmetic is that of the numbers.\<close>

lemma size_t_of_nat: "n \<le> SIZE_MAX \<Longrightarrow> size_t_of_int (int n) = n"
  by (simp add: size_t_of_int_def SIZE_MAX_def)

lemma size_t_sub: "b \<le> a \<Longrightarrow> a \<le> SIZE_MAX \<Longrightarrow> size_t_of_int (int a - int b) = a - b"
  using size_t_of_nat [of "a - b"] by (simp add: of_nat_diff)

lemma size_t_add: "a + b \<le> SIZE_MAX \<Longrightarrow> size_t_of_int (int a + int b) = a + b"
  using size_t_of_nat [of "a + b"] by simp

lemma size_t_add1: "a + b + 1 \<le> SIZE_MAX \<Longrightarrow> size_t_of_int (int a + int b + 1) = a + b + 1"
  using size_t_of_nat [of "a + b + 1"] by (simp add: algebra_simps)

lemma size_t_le: "size_t_of_int k \<le> SIZE_MAX"
  by (simp add: size_t_of_int_def SIZE_MAX_def nat_le_iff)

lemma buf_invD:
  assumes "buf_inv b"
  shows "readPos' b \<le> writePos' b" "writePos' b \<le> length (buffer' b)"
    "length (buffer' b) \<le> SIZE_MAX" "writePos' b \<le> SIZE_MAX" "readPos' b \<le> SIZE_MAX"
  using assms by (auto simp: buf_inv_def)

lemma length_resize: "length (resize v n) = n"
  by (auto simp: resize_def)

lemma take_resize: "n \<le> length v \<Longrightarrow> n \<le> m \<Longrightarrow> take n (resize v m) = take n v"
  by (auto simp: resize_def)

lemma WritableBytes_inv: "buf_inv b \<Longrightarrow> WritableBytes b = length (buffer' b) - writePos' b"
  by (simp add: WritableBytes_def buf_inv_def size_t_sub)

lemma ReadableBytes_inv: "buf_inv b \<Longrightarrow> ReadableBytes b = writePos' b - readPos' b"
  by (simp add: ReadableBytes_def buf_inv_def size_t_sub)

lemma Peek_inv: "buf_inv b \<Longrightarrow> Peek b = take (writePos' b - readPos' b) (drop (readPos' b) (buffer' b))"
  by (simp add: Peek_def ReadableBytes_inv)

lemma Peek_length: "buf_inv b \<Longrightarrow> length (Peek b) = ReadableBytes b"
  by (auto simp: Peek_inv ReadableBytes_inv buf_inv_def)

lemma MakeSpace_resize:
  assumes "buf_inv b" "WritableBytes b + PrependableBytes b < len"
    and "writePos' b + len + 1 \<le> SIZE_MAX"
  shows "\<exists>b'. MakeSpace' b len = Inr b' \<and> length (buffer' b') = writePos' b + len + 1
           \<and> readPos' b' = readPos' b \<and> writePos' b' = writePos' b \<and> Peek b' = Peek b
           \<and> buf_inv b'"
proof -
  let ?b' = "b\<lparr>buffer' := resize (buffer' b) (writePos' b + len + 1)\<rparr>"
  have "WritableBytes b + PrependableBytes b \<le> SIZE_MAX"
    using assms(1) unfolding WritableBytes_inv [OF assms(1)] PrependableBytes_def buf_inv_def
    by arith
  then have sum: "size_t_of_int (int (WritableBytes b) + int (PrependableBytes b))
                    = WritableBytes b + PrependableBytes b"
    by (rule size_t_add)
  have new: "size_t_of_int (int (writePos' b) + int len + 1) = writePos' b + len + 1"
    using assms(3) by (rule size_t_add1)
  have ms: "MakeSpace' b len = Inr ?b'"
    using assms(2) by (simp add: MakeSpace'_def sum new)
  have inv: "buf_inv ?b'"
    using buf_invD [OF assms(1)] assms(3) by (simp add: buf_inv_def length_resize)
  have "Peek ?b' = Peek b"
    unfolding Peek_inv [OF inv] Peek_inv [OF assms(1)] using buf_invD [OF assms(1)]
    by (simp add: drop_take [symmetric] take_resize)
  with ms inv show ?thesis by (simp add: length_resize)
qed

lemma MakeSpace_compact:
  assumes "buf_inv b" "\<not> WritableBytes b + PrependableBytes b < len"
  shows "\<exists>b'. MakeSpace' b len = Inr b' \<and> length (buffer' b') = length (buffer' b)
           \<and> readPos' b' = 0 \<and> writePos' b' = ReadableBytes b \<and> Peek b' = Peek b
           \<and> buffer' b' = Peek b @ drop (ReadableBytes b) (buffer' b)
           \<and> buf_inv b'"
proof -
  let ?r = "ReadableBytes b"
  let ?b' = "b\<lparr>buffer' := std_copy (Peek b) 0 (buffer' b), readPos' := 0, writePos' := ?r\<rparr>"
  have r: "?r = writePos' b - readPos' b" by (rule ReadableBytes_inv [OF assms(1)])
  have rmax: "?r \<le> SIZE_MAX" using assms(1) unfolding r buf_inv_def by arith
  have "WritableBytes b + PrependableBytes b \<le> SIZE_MAX"
    using assms(1) unfolding WritableBytes_inv [OF assms(1)] PrependableBytes_def buf_inv_def
    by arith
  then have sum: "size_t_of_int (int (WritableBytes b) + int (PrependableBytes b))
                    = WritableBytes b + PrependableBytes b"
    by (rule size_t_add)
  have w: "size_t_of_int (int 0 + int ?r) = ?r"
    using size_t_add [of 0 ?r] rmax by simp
  have inv: "buf_inv ?b'"
    using buf_invD [OF assms(1)] by (simp add: buf_inv_def std_copy_def r Peek_inv [OF assms(1)])
  have r': "ReadableBytes ?b' = ?r"
    by (simp add: ReadableBytes_inv [OF inv])
  have ms: "MakeSpace' b len = Inr ?b'"
    using assms(2) buf_invD [OF assms(1)] sum w r' by (simp add: MakeSpace'_def Let_def)
  have "Peek ?b' = take (writePos' ?b' - readPos' ?b') (drop (readPos' ?b') (buffer' ?b'))"
    by (rule Peek_inv [OF inv])
  also have "\<dots> = Peek b"
    using buf_invD [OF assms(1)] by (simp add: std_copy_def r Peek_inv [OF assms(1)])
  finally have "Peek ?b' = Peek b" .
  moreover have "buffer' ?b' = Peek b @ drop ?r (buffer' b)"
    using buf_invD [OF assms(1)] by (simp add: std_copy_def Peek_inv [OF assms(1)] r)
  moreover have "length (buffer' ?b') = length (buffer' b)"
    using buf_invD [OF assms(1)] by (simp add: std_copy_def Peek_inv [OF assms(1)])
  ultimately show ?thesis using ms inv by simp
qed

lemma EnsureWriteable_ok:
  assumes "buf_inv b" "resize_fits b len"
  shows "\<exists>b'. EnsureWriteable b len = Inr b' \<and> buf_inv b' \<and> Peek b' = Peek b
           \<and> len \<le> WritableBytes b' \<and> ReadableBytes b' = ReadableBytes b
           \<and> writePos' b' \<le> writePos' b
           \<and> (len \<le> WritableBytes b \<longrightarrow> b' = b)"
proof (cases "WritableBytes b < len")
  case False
  with assms show ?thesis by (simp add: EnsureWriteable_def)
next
  case True
  show ?thesis
  proof (cases "WritableBytes b + PrependableBytes b < len")
    case True
    with assms(2) have "writePos' b + len + 1 \<le> SIZE_MAX" by (simp add: resize_fits_def)
    from MakeSpace_resize [OF assms(1) True this] obtain b' where
      b': "MakeSpace' b len = Inr b'" "length (buffer' b') = writePos' b + len + 1"
      "readPos' b' = readPos' b" "writePos' b' = writePos' b" "Peek b' = Peek b" "buf_inv b'"
      by blast
    with assms \<open>WritableBytes b < len\<close> show ?thesis
      by (simp add: EnsureWriteable_def WritableBytes_inv ReadableBytes_inv)
  next
    case False
    from MakeSpace_compact [OF assms(1) False] obtain b' where
      b': "MakeSpace' b len = Inr b'" "length (buffer' b') = length (buffer' b)"
      "readPos' b' = 0" "writePos' b' = ReadableBytes b" "Peek b' = Peek b" "buf_inv b'"
      by blast
    with assms False \<open>WritableBytes b < len\<close> show ?thesis
      by (simp add: EnsureWriteable_def WritableBytes_inv ReadableBytes_inv PrependableBytes_def
          buf_inv_def)
  qed
qed

lemma Peek_after_write:
  assumes "buf_inv b" "length d \<le> WritableBytes b"
  shows "Peek (HasWritten (b\<lparr>buffer' := std_copy d (writePos' b) (buffer' b)\<rparr>) (length d))
           = Peek b @ d"
    and "buf_inv (HasWritten (b\<lparr>buffer' := std_copy d (writePos' b) (buffer' b)\<rparr>) (length d))"
    and "HasWritten (b\<lparr>buffer' := std_copy d (writePos' b) (buffer' b)\<rparr>) (length d)
           = b\<lparr>buffer' := std_copy d (writePos' b) (buffer' b),
               writePos' := writePos' b + length d\<rparr>"
proof -
  let ?b' = "b\<lparr>buffer' := std_copy d (writePos' b) (buffer' b),
               writePos' := writePos' b + length d\<rparr>"
  have le: "writePos' b + length d \<le> length (buffer' b)"
    using assms unfolding WritableBytes_inv [OF assms(1)] buf_inv_def by arith
  then have "writePos' b + length d \<le> SIZE_MAX"
    using assms(1) by (simp add: buf_inv_def)
  then have "size_t_of_int (int (writePos' b) + int (length d)) = writePos' b + length d"
    by (rule size_t_add)
  then show hw: "HasWritten (b\<lparr>buffer' := std_copy d (writePos' b) (buffer' b)\<rparr>) (length d)
                   = ?b'"
    by (simp add: HasWritten_def)
  show inv: "buf_inv (HasWritten (b\<lparr>buffer' := std_copy d (writePos' b) (buffer' b)\<rparr>)
                        (length d))"
    unfolding hw using buf_invD [OF assms(1)] le by (simp add: buf_inv_def std_copy_def)
  show "Peek (HasWritten (b\<lparr>buffer' := std_copy d (writePos' b) (buffer' b)\<rparr>) (length d))
          = Peek b @ d"
    unfolding hw Peek_inv [OF inv [unfolded hw]] Peek_inv [OF assms(1)]
    using buf_invD [OF assms(1)] le
    by (auto simp: std_copy_def drop_take)
qed
lemma resize_fits_objects:
  assumes "writePos' b \<le> length (buffer' b)" and "length (buffer' b) \<le> PTRDIFF_MAX"
    and "len \<le> PTRDIFF_MAX"
  shows "resize_fits b len"
  using assms by (simp add: resize_fits_def PTRDIFF_MAX_def SIZE_MAX_def)

lemma Append_ok:
  assumes "buf_inv b" "resize_fits b (length d)"
  shows "\<exists>b'. Append b d = Inr b' \<and> buf_inv b' \<and> Peek b' = Peek b @ d
           \<and> ReadableBytes b' = ReadableBytes b + length d
           \<and> writePos' b' \<le> writePos' b + length d"
proof -
  from EnsureWriteable_ok [OF assms] obtain b1 where
    b1: "EnsureWriteable b (length d) = Inr b1" "buf_inv b1" "Peek b1 = Peek b"
    "length d \<le> WritableBytes b1" "ReadableBytes b1 = ReadableBytes b"
    "writePos' b1 \<le> writePos' b"
    by blast
  let ?b' = "HasWritten (b1\<lparr>buffer' := std_copy d (writePos' b1) (buffer' b1)\<rparr>) (length d)"
  note w = Peek_after_write [OF b1(2) b1(4)]
  have le: "writePos' b1 + length d \<le> length (buffer' b1)"
    using b1(4) buf_invD [OF b1(2)] unfolding WritableBytes_inv [OF b1(2)] by arith
  have "Append b d = Inr ?b'"
    by (simp add: Append_def b1(1) le)
  moreover have "Peek ?b' = Peek b @ d"
    using w(1) b1(3) by simp
  moreover have "ReadableBytes ?b' = ReadableBytes b + length d"
    using Peek_length [OF w(2)] Peek_length [OF assms(1)] w(1) b1(3) by simp
  moreover have "writePos' ?b' \<le> writePos' b + length d"
    using b1(6) by (simp add: w(3))
  ultimately show ?thesis using w(2) by blast
qed

lemma EnsureWriteable_MakeSpace:
  assumes "buf_inv b" "WritableBytes b < len" "resize_fits b len"
  shows "EnsureWriteable b len = MakeSpace' b len"
proof -
  from EnsureWriteable_ok [OF assms(1,3)] obtain b' where
    "EnsureWriteable b len = Inr b'" by blast
  with assms(2) show ?thesis
    by (auto simp: EnsureWriteable_def split: sum.splits if_splits)
qed

lemma Append_length:
  assumes "buf_inv b" "resize_fits b (length d)"
  shows "\<exists>b'. Append b d = Inr b'
           \<and> length (buffer' b')
               = (if length d \<le> WritableBytes b then length (buffer' b)
                  else if WritableBytes b + PrependableBytes b < length d
                  then writePos' b + length d + 1
                  else length (buffer' b))"
proof -
  from EnsureWriteable_ok [OF assms] obtain b1 where
    b1: "EnsureWriteable b (length d) = Inr b1" "buf_inv b1" "length d \<le> WritableBytes b1"
    "length d \<le> WritableBytes b \<longrightarrow> b1 = b"
    by blast
  let ?b' = "HasWritten (b1\<lparr>buffer' := std_copy d (writePos' b1) (buffer' b1)\<rparr>) (length d)"
  have le: "writePos' b1 + length d \<le> length (buffer' b1)"
    using b1(3) buf_invD [OF b1(2)] unfolding WritableBytes_inv [OF b1(2)] by arith
  have app: "Append b d = Inr ?b'" by (simp add: Append_def b1(1) le)
  have len: "length (buffer' ?b') = length (buffer' b1)"
    unfolding Peek_after_write(3) [OF b1(2) b1(3)] using le by (simp add: std_copy_def)
  show ?thesis
  proof (cases "length d \<le> WritableBytes b")
    case True
    with b1(4) app len show ?thesis by simp
  next
    case False
    then have lt: "WritableBytes b < length d" by simp
    have ms: "MakeSpace' b (length d) = Inr b1"
      using EnsureWriteable_MakeSpace [OF assms(1) lt assms(2)] b1(1) by simp
    show ?thesis
    proof (cases "WritableBytes b + PrependableBytes b < length d")
      case True
      with assms(2) have "writePos' b + length d + 1 \<le> SIZE_MAX"
        by (simp add: resize_fits_def)
      from MakeSpace_resize [OF assms(1) True this] ms
      have "length (buffer' b1) = writePos' b + length d + 1" by auto
      with True False app len show ?thesis by simp
    next
      case False
      from MakeSpace_compact [OF assms(1) False] ms
      have "length (buffer' b1) = length (buffer' b)" by auto
      with False lt app len show ?thesis by simp
    qed
  qed
qed

lemma ReadFd_fits:
  assumes "buf_inv b" "length d \<le> WritableBytes b"
  shows "ReadFd b (ReadvBytes d)
           = Inr (HasWritten (b\<lparr>buffer' := std_copy d (writePos' b) (buffer' b)\<rparr>) (length d),
                  int (length d), None)"
  using assms buf_invD [OF assms(1)]
  by (simp add: ReadFd_def ReadFd_iov_def HasWritten_def Let_def)

lemma ReadFd_tail_full:
  assumes "buf_inv b" "WritableBytes b < length d"
  shows "b\<lparr>buffer' := std_copy (take (WritableBytes b) d) (writePos' b) (buffer' b),
           writePos' := length (std_copy (take (WritableBytes b) d) (writePos' b) (buffer' b))\<rparr>
         = HasWritten (b\<lparr>buffer' := std_copy (take (WritableBytes b) d) (writePos' b) (buffer' b)\<rparr>)
             (length (take (WritableBytes b) d))"
proof -
  have tl: "length (take (WritableBytes b) d) \<le> WritableBytes b" by simp
  show ?thesis
    unfolding Peek_after_write(3) [OF assms(1) tl] using assms(2) buf_invD [OF assms(1)]
    by (simp add: std_copy_def WritableBytes_inv [OF assms(1)])
qed

lemma ReadFd_overflow:
  assumes "buf_inv b" "WritableBytes b < length d" "length d \<le> WritableBytes b + 65536"
    and "resize_fits b (length d)"
  shows "\<exists>b1 b'. b1 = HasWritten (b\<lparr>buffer' := std_copy (take (WritableBytes b) d)
                                   (writePos' b) (buffer' b)\<rparr>) (WritableBytes b)
           \<and> Peek b1 = Peek b @ take (WritableBytes b) d \<and> WritableBytes b1 = 0 \<and> buf_inv b1
           \<and> resize_fits b1 (length d - WritableBytes b)
           \<and> Append b1 (drop (WritableBytes b) d) = Inr b'
           \<and> ReadFd b (ReadvBytes d) = Inr (b', int (length d), None)
           \<and> buf_inv b' \<and> Peek b' = Peek b @ d
           \<and> ReadableBytes b' = ReadableBytes b + length d"
proof -
  let ?w = "WritableBytes b"
  let ?tail = "take ?w d"
  let ?b1 = "HasWritten (b\<lparr>buffer' := std_copy ?tail (writePos' b) (buffer' b)\<rparr>) (length ?tail)"
  have len_tail: "length ?tail = ?w" using assms(2) by simp
  have tl: "length ?tail \<le> ?w" by simp
  note w = Peek_after_write [OF assms(1) tl]
  have peek1: "Peek ?b1 = Peek b @ ?tail" by (rule w(1))
  have inv1: "buf_inv ?b1" by (rule w(2))
  have f1: "writePos' ?b1 = length (buffer' b)" "length (buffer' ?b1) = length (buffer' b)"
    "readPos' ?b1 = readPos' b"
    unfolding w(3) using assms(2) buf_invD [OF assms(1)]
    by (simp_all add: std_copy_def WritableBytes_inv [OF assms(1)])
  have w1: "WritableBytes ?b1 = 0"
    unfolding WritableBytes_inv [OF inv1] f1 by simp
  have r1: "ReadableBytes ?b1 = ReadableBytes b + ?w"
    using Peek_length [OF inv1] Peek_length [OF assms(1)] peek1 len_tail by simp
  have fits1: "resize_fits ?b1 (length d - ?w)"
  proof -
    have a: "length d \<le> ?w + readPos' b \<or> writePos' b + length d + 1 \<le> SIZE_MAX"
      using assms(4) by (simp add: resize_fits_def PrependableBytes_def)
    have ws: "?w = length (buffer' b) - writePos' b"
      by (rule WritableBytes_inv [OF assms(1)])
    have "length d - ?w \<le> readPos' b \<or> length (buffer' b) + (length d - ?w) + 1 \<le> SIZE_MAX"
      using a assms(2) buf_invD(2) [OF assms(1)] unfolding ws by arith
    then show ?thesis
      unfolding resize_fits_def w1 PrependableBytes_def f1 by simp
  qed
  have ld: "length (drop ?w d) = length d - ?w" by simp
  from Append_ok [OF inv1, of "drop ?w d"] fits1 obtain b' where
    b': "Append ?b1 (drop ?w d) = Inr b'" "buf_inv b'" "Peek b' = Peek ?b1 @ drop ?w d"
    "ReadableBytes b' = ReadableBytes ?b1 + length (drop ?w d)"
    unfolding ld by blast
  have over: "take (length d - ?w) (take 65536 (drop ?w d)) = drop ?w d"
    using assms(3) by simp
  have "ReadFd b (ReadvBytes d) = Inr (b', int (length d), None)"
    using assms(2) b'(1) ReadFd_tail_full [OF assms(1) assms(2)] over buf_invD [OF assms(1)]
    by (simp add: ReadFd_def ReadFd_iov_def Let_def)
  moreover have "Peek b' = Peek b @ d"
    using b'(3) peek1 by simp
  moreover have "ReadableBytes b' = ReadableBytes b + length d"
    using b'(4) r1 assms(2) by simp
  ultimately show ?thesis
    using b'(1,2) peek1 inv1 w1 len_tail fits1 by simp
qed

lemma Buffer_init_inv: "n \<le> SIZE_MAX \<Longrightarrow> buf_inv (Buffer_init n)"
  by (simp add: buf_inv_def Buffer_init_def)

lemma Retrieve_ok:
  assumes "buf_inv b" "len \<le> ReadableBytes b"
  shows "\<exists>b'. Retrieve b len = Inr b' \<and> buf_inv b' \<and> buffer' b' = buffer' b
           \<and> (if len = ReadableBytes b then readPos' b' = 0 \<and> writePos' b' = 0
               else readPos' b' = readPos' b + len \<and> writePos' b' = writePos' b)"
proof -
  have le: "readPos' b + len \<le> writePos' b"
    using assms(2) buf_invD [OF assms(1)] unfolding ReadableBytes_inv [OF assms(1)] by arith
  then have "readPos' b + len \<le> SIZE_MAX"
    using buf_invD [OF assms(1)] by arith
  then have "size_t_of_int (int (readPos' b) + int len) = readPos' b + len"
    by (rule size_t_add)
  with assms(2) le buf_invD [OF assms(1)] show ?thesis
    by (auto simp: Retrieve_def buf_inv_def ReadableBytes_inv [OF assms(1)] Let_def)
qed



text \<open>\<open>Buffer_of s\<close> is what \<open>ReadFd\<close> makes of a new buffer of the size of \<open>s\<close>.\<close>

lemma Buffer_of_inv: "length s \<le> SIZE_MAX \<Longrightarrow> buf_inv (Buffer_of s)"
  by (simp add: buf_inv_def Buffer_of_def)

lemma Buffer_of_ReadFd:
  assumes "length s \<le> SIZE_MAX"
  shows "ReadFd (Buffer_init (length s)) (ReadvBytes s) = Inr (Buffer_of s, int (length s), None)"
proof -
  note inv = Buffer_init_inv [OF assms]
  have le: "length s \<le> WritableBytes (Buffer_init (length s))"
    unfolding WritableBytes_inv [OF inv] by (simp add: Buffer_init_def)
  show ?thesis
    unfolding ReadFd_fits [OF inv le] Peek_after_write(3) [OF inv le]
    by (simp add: Buffer_of_def Buffer_init_def std_copy_def)
qed
section \<open>Claims about the byte buffer\<close>




text \<open>
  C8. When an append of \<open>need\<close> bytes finds fewer than \<open>need\<close> writable bytes,
  \<open>EnsureWriteable\<close> runs \<open>MakeSpace_\<close>: if \<open>(capacity - write) + read < need\<close> the vector is
  resized to \<open>write + need + 1\<close> with both cursors kept, otherwise the readable bytes move to
  offset 0 (\<open>read\<close> becomes 0, \<open>write\<close> the old readable count) and the vector keeps its size.
  Either way the readable bytes are the same, and the append writes after them. The \<open>need\<close>
  bytes are in memory beside the vector, so the size \<open>write + need + 1\<close> is a value of
  \<open>size_t\<close> (\<open>resize_fits\<close>, which \<open>resize_fits_objects\<close> derives from the sizes of the
  two objects).
\<close>

theorem MakeSpace_growth_policy:
  assumes "buf_inv b" and "WritableBytes b < length d" and "resize_fits b (length d)"
  shows "\<exists>b1. EnsureWriteable b (length d) = MakeSpace' b (length d)
           \<and> MakeSpace' b (length d) = Inr b1
           \<and> (if (length (buffer' b) - writePos' b) + readPos' b < length d
               then length (buffer' b1) = writePos' b + length d + 1
                    \<and> readPos' b1 = readPos' b \<and> writePos' b1 = writePos' b
               else buffer' b1 = Peek b @ drop (ReadableBytes b) (buffer' b)
                    \<and> length (buffer' b1) = length (buffer' b)
                    \<and> readPos' b1 = 0 \<and> writePos' b1 = ReadableBytes b)
           \<and> Peek b1 = Peek b
           \<and> Append b d
               = Inr (HasWritten (b1\<lparr>buffer' := std_copy d (writePos' b1) (buffer' b1)\<rparr>)
                       (length d))"
proof -
  note em = EnsureWriteable_MakeSpace [OF assms]
  from EnsureWriteable_ok [OF assms(1,3)] obtain b1 where
    b1: "EnsureWriteable b (length d) = Inr b1" "buf_inv b1" "Peek b1 = Peek b"
    "length d \<le> WritableBytes b1"
    by blast
  have le: "writePos' b1 + length d \<le> length (buffer' b1)"
    using b1(4) buf_invD [OF b1(2)] unfolding WritableBytes_inv [OF b1(2)] by arith
  have app: "Append b d
          = Inr (HasWritten (b1\<lparr>buffer' := std_copy d (writePos' b1) (buffer' b1)\<rparr>) (length d))"
    by (simp add: Append_def b1(1) le)
  have ms: "MakeSpace' b (length d) = Inr b1" using em b1(1) by simp
  have cond: "(length (buffer' b) - writePos' b) + readPos' b < length d
                \<longleftrightarrow> WritableBytes b + PrependableBytes b < length d"
    by (simp add: WritableBytes_inv [OF assms(1)] PrependableBytes_def)
  show ?thesis
  proof (cases "WritableBytes b + PrependableBytes b < length d")
    case True
    with assms(3) have "writePos' b + length d + 1 \<le> SIZE_MAX"
      by (simp add: resize_fits_def)
    from MakeSpace_resize [OF assms(1) True this] ms
    have "length (buffer' b1) = writePos' b + length d + 1"
      "readPos' b1 = readPos' b" "writePos' b1 = writePos' b"
      by auto
    with True cond em ms b1(3) app show ?thesis by simp
  next
    case False
    from MakeSpace_compact [OF assms(1) False] ms
    have "length (buffer' b1) = length (buffer' b)" "readPos' b1 = 0"
      "writePos' b1 = ReadableBytes b"
      "buffer' b1 = Peek b @ drop (ReadableBytes b) (buffer' b)"
      by auto
    with False cond em ms b1(3) app show ?thesis by simp
  qed
qed

theorem MakeSpace_growth_policy_witness:
  "buf_inv \<lparr>buffer' = ''abcd'', readPos' = 1, writePos' = 3\<rparr>
   \<and> WritableBytes \<lparr>buffer' = ''abcd'', readPos' = 1, writePos' = 3\<rparr> < length ''xyz''
   \<and> resize_fits \<lparr>buffer' = ''abcd'', readPos' = 1, writePos' = 3\<rparr> (length ''xyz'')
   \<and> MakeSpace' \<lparr>buffer' = ''abcd'', readPos' = 1, writePos' = 3\<rparr> (length ''xyz'')
       = Inr \<lparr>buffer' = ''abcd'' @ replicate 3 (CHR 0x00), readPos' = 1, writePos' = 3\<rparr>
   \<and> Append \<lparr>buffer' = ''abcd'', readPos' = 1, writePos' = 3\<rparr> ''xyz''
       = Inr \<lparr>buffer' = ''abcxyz'' @ [CHR 0x00], readPos' = 1, writePos' = 6\<rparr>"
proof -
  let ?B = "\<lparr>buffer' = ''abcd'', readPos' = 1, writePos' = 3\<rparr>"
  have h1: "buf_inv ?B" by (simp add: buf_inv_def SIZE_MAX_def)
  have h2: "WritableBytes ?B < length ''xyz''" by (simp add: WritableBytes_def size_t_of_int_def)
  have h3: "resize_fits ?B (length ''xyz'')" by (simp add: resize_fits_def SIZE_MAX_def)
  have m: "MakeSpace' ?B (length ''xyz'')
             = Inr \<lparr>buffer' = ''abcd'' @ replicate 3 (CHR 0x00), readPos' = 1, writePos' = 3\<rparr>"
    by (simp add: MakeSpace'_def WritableBytes_def PrependableBytes_def size_t_of_int_def
        resize_def)
  from MakeSpace_growth_policy [OF h1 h2 h3] m
  have "Append ?B ''xyz''
          = Inr (HasWritten (\<lparr>buffer' = std_copy ''xyz'' 3 (''abcd'' @ replicate 3 (CHR 0x00)),
                             readPos' = 1, writePos' = 3\<rparr>) (length ''xyz''))"
    by simp
  then have "Append ?B ''xyz''
          = Inr \<lparr>buffer' = ''abcxyz'' @ [CHR 0x00], readPos' = 1, writePos' = 6\<rparr>"
    by (simp add: HasWritten_def std_copy_def size_t_of_int_def numeral_3_eq_3)
  with h1 h2 h3 m show ?thesis by (intro conjI)
qed

text \<open>
  C6. One \<open>ReadFd\<close> hands \<open>readv\<close> exactly two regions, the writable tail and a stack array of
  65536 bytes. When \<open>readv\<close> delivers the bytes \<open>d\<close> (at most what the regions hold), \<open>ReadFd\<close>
  returns their number and the readable bytes are the old ones followed by \<open>d\<close>. When \<open>d\<close> fits
  the tail the vector keeps its size; otherwise the tail is full and the rest of \<open>d\<close>, which
  \<open>readv\<close> put in the stack array, is appended, where \<open>EnsureWriteable\<close> finds no room and
  runs the growth policy \<open>MakeSpace_\<close>: the vector grows by that rest and one byte when fewer
  bytes than that have been read off the front, and otherwise the unread bytes move to the front.
  The bytes that \<open>readv\<close> delivered are in memory beside the vector, so the size of the
  vector so grown is a value of \<open>size_t\<close> (\<open>resize_fits\<close>).
\<close>

theorem ReadFd_extends_readable:
  assumes "buf_inv b" and "length d \<le> sum_list (ReadFd_iov b)" and "resize_fits b (length d)"
  shows "ReadFd_iov b = [WritableBytes b, 65536]
         \<and> (\<exists>b'. ReadFd b (ReadvBytes d) = Inr (b', int (length d), None)
                \<and> buf_inv b'
                \<and> Peek b' = Peek b @ d
                \<and> ReadableBytes b' = ReadableBytes b + length d
                \<and> (if length d \<le> WritableBytes b
                    then length (buffer' b') = length (buffer' b) \<and> readPos' b' = readPos' b
                    else (\<exists>b1. b1 = HasWritten (b\<lparr>buffer' := std_copy (take (WritableBytes b) d)
                                                    (writePos' b) (buffer' b)\<rparr>) (WritableBytes b)
                            \<and> Peek b1 = Peek b @ take (WritableBytes b) d
                            \<and> WritableBytes b1 = 0
                            \<and> Append b1 (drop (WritableBytes b) d) = Inr b'
                            \<and> EnsureWriteable b1 (length d - WritableBytes b)
                                = MakeSpace' b1 (length d - WritableBytes b))
                         \<and> length (buffer' b')
                             = (if readPos' b < length d - WritableBytes b
                                then length (buffer' b) + (length d - WritableBytes b) + 1
                                else length (buffer' b))))"
proof (cases "length d \<le> WritableBytes b")
  case True
  let ?b' = "HasWritten (b\<lparr>buffer' := std_copy d (writePos' b) (buffer' b)\<rparr>) (length d)"
  note w = Peek_after_write [OF assms(1) True]
  have le: "writePos' b + length d \<le> length (buffer' b)"
    using True buf_invD [OF assms(1)] unfolding WritableBytes_inv [OF assms(1)] by arith
  have "ReadableBytes ?b' = ReadableBytes b + length d"
    using Peek_length [OF w(2)] Peek_length [OF assms(1)] w(1) by simp
  moreover have "length (buffer' ?b') = length (buffer' b)" "readPos' ?b' = readPos' b"
    unfolding w(3) using le by (simp_all add: std_copy_def)
  ultimately show ?thesis
    using ReadFd_fits [OF assms(1) True] w(1,2) True by (simp add: ReadFd_iov_def)
next
  case False
  then have lt: "WritableBytes b < length d" by simp
  have le: "length d \<le> WritableBytes b + 65536"
    using assms(2) by (simp add: ReadFd_iov_def)
  from ReadFd_overflow [OF assms(1) lt le assms(3)] obtain b1 b' where
    r: "b1 = HasWritten (b\<lparr>buffer' := std_copy (take (WritableBytes b) d)
                                  (writePos' b) (buffer' b)\<rparr>) (WritableBytes b)"
    "Peek b1 = Peek b @ take (WritableBytes b) d" "WritableBytes b1 = 0" "buf_inv b1"
    "resize_fits b1 (length d - WritableBytes b)"
    "Append b1 (drop (WritableBytes b) d) = Inr b'"
    "ReadFd b (ReadvBytes d) = Inr (b', int (length d), None)"
    "buf_inv b'" "Peek b' = Peek b @ d" "ReadableBytes b' = ReadableBytes b + length d"
    by blast
  have ms: "EnsureWriteable b1 (length d - WritableBytes b)
              = MakeSpace' b1 (length d - WritableBytes b)"
    using EnsureWriteable_MakeSpace [OF r(4) _ r(5)] r(3) lt by simp
  have tl: "length (take (WritableBytes b) d) \<le> WritableBytes b" by simp
  have tl': "length (take (WritableBytes b) d) = WritableBytes b" using lt by simp
  have b1: "length (buffer' b1) = length (buffer' b)" "writePos' b1 = length (buffer' b)"
    "PrependableBytes b1 = readPos' b"
    unfolding r(1) PrependableBytes_def
    using Peek_after_write(3) [OF assms(1) tl] lt buf_invD [OF assms(1)]
    unfolding tl'
    by (simp_all add: std_copy_def WritableBytes_inv [OF assms(1)])
  have ld: "length (drop (WritableBytes b) d) = length d - WritableBytes b" by simp
  from Append_length [OF r(4), of "drop (WritableBytes b) d"] r(5,6)
  have "length (buffer' b')
          = (if length d - WritableBytes b \<le> WritableBytes b1 then length (buffer' b1)
             else if WritableBytes b1 + PrependableBytes b1 < length d - WritableBytes b
             then writePos' b1 + (length d - WritableBytes b) + 1
             else length (buffer' b1))"
    unfolding ld by simp
  with r(3) b1 lt
  have grow: "length (buffer' b')
                = (if readPos' b < length d - WritableBytes b
                   then length (buffer' b) + (length d - WritableBytes b) + 1
                   else length (buffer' b))"
    by simp
  from r ms have
    "\<exists>b1. b1 = HasWritten (b\<lparr>buffer' := std_copy (take (WritableBytes b) d)
                                     (writePos' b) (buffer' b)\<rparr>) (WritableBytes b)
       \<and> Peek b1 = Peek b @ take (WritableBytes b) d
       \<and> WritableBytes b1 = 0
       \<and> Append b1 (drop (WritableBytes b) d) = Inr b'
       \<and> EnsureWriteable b1 (length d - WritableBytes b)
           = MakeSpace' b1 (length d - WritableBytes b)"
    by blast
  with r(7-10) grow False show ?thesis by (simp add: ReadFd_iov_def)
qed

theorem ReadFd_extends_readable_witness:
  "buf_inv \<lparr>buffer' = ''abcd'', readPos' = 1, writePos' = 3\<rparr>
   \<and> length ''xyz'' \<le> sum_list (ReadFd_iov \<lparr>buffer' = ''abcd'', readPos' = 1, writePos' = 3\<rparr>)
   \<and> resize_fits \<lparr>buffer' = ''abcd'', readPos' = 1, writePos' = 3\<rparr> (length ''xyz'')
   \<and> Peek \<lparr>buffer' = ''abcd'', readPos' = 1, writePos' = 3\<rparr> = ''bc''
   \<and> (\<exists>b'. ReadFd \<lparr>buffer' = ''abcd'', readPos' = 1, writePos' = 3\<rparr> (ReadvBytes ''xyz'')
               = Inr (b', 3, None)
            \<and> Peek b' = ''bcxyz'')"
proof -
  let ?B = "\<lparr>buffer' = ''abcd'', readPos' = 1, writePos' = 3\<rparr>"
  have h1: "buf_inv ?B" by (simp add: buf_inv_def SIZE_MAX_def)
  have h2: "length ''xyz'' \<le> sum_list (ReadFd_iov ?B)" by (simp add: ReadFd_iov_def)
  have h3: "resize_fits ?B (length ''xyz'')" by (simp add: resize_fits_def SIZE_MAX_def)
  have p: "Peek ?B = ''bc''" by (simp add: Peek_def ReadableBytes_def size_t_of_int_def)
  from ReadFd_extends_readable [OF h1 h2 h3] obtain b' where
    "ReadFd ?B (ReadvBytes ''xyz'') = Inr (b', int (length ''xyz''), None)"
    "Peek b' = Peek ?B @ ''xyz''"
    by blast
  with h1 h2 h3 p show ?thesis by simp
qed

section \<open>Claim about the response builder\<close>

lemma CODE_PATH_spec: "CODE_PATH c = spec_error_page c"
  by (simp add: CODE_PATH_def spec_error_page_def)

lemma MakeResponse_status_spec:
  "code' (MakeResponse_status fs r)
     = spec_status (fs_stat fs (srcDir' r @ HttpResponse.path' r)) (code' r)
   \<and> HttpResponse.path' (MakeResponse_status fs r) = HttpResponse.path' r
   \<and> srcDir' (MakeResponse_status fs r) = srcDir' r"
  by (simp add: MakeResponse_status_def stat_into_def spec_status_def split: option.splits)

text \<open>
  C3. For every file system, root \<open>srcDir\<close>, path and initial code, the status code and the
  path that \<open>MakeResponse\<close> has after its first statement and \<open>ErrorHtml_\<close> are those of the
  specification's algorithm \<open>spec_build\<close>: 404 when \<open>stat\<close> fails or names a directory, else 403
  when the file is not world-readable, else 200 when the code was \<open>-1\<close> (any other code is
  kept); then, for a status among 400, 403, 404 and 500, the path of its error page, and the
  status 404 when \<open>stat\<close> fails on that page.
\<close>

theorem MakeResponse_status_and_error_page:
  "(code' (ErrorHtml' fs (MakeResponse_status fs r)),
    HttpResponse.path' (ErrorHtml' fs (MakeResponse_status fs r)))
     = spec_build fs (srcDir' r) (HttpResponse.path' r) (code' r)"
proof -
  let ?r1 = "MakeResponse_status fs r"
  have "(code' (ErrorHtml' fs ?r1), HttpResponse.path' (ErrorHtml' fs ?r1))
          = (case spec_error_page (code' ?r1) of
               None \<Rightarrow> (code' ?r1, HttpResponse.path' ?r1)
             | Some page \<Rightarrow>
                 (if fs_stat fs (srcDir' ?r1 @ page) = None then 404 else code' ?r1, page))"
    by (auto simp: ErrorHtml'_def CODE_PATH_spec stat_into_def Let_def split: option.splits)
  then show ?thesis
    by (simp add: spec_build_def MakeResponse_status_spec Let_def split: option.splits)
qed

text \<open>
  The rest of \<open>MakeResponse\<close> keeps the path. \<open>AddStateLine_\<close> keeps a status code that
  \<open>CODE_STATUS\<close> knows and puts 400 in the place of any other. A run of \<open>Append\<close> calls
  returns, with the strings behind the readable bytes, when their lengths and \<open>writePos_\<close>
  add up to less than \<open>SIZE_MAX\<close>.
\<close>

lemma Append_all_ok:
  "buf_inv buff \<Longrightarrow> writePos' buff + length (concat ss) < SIZE_MAX \<Longrightarrow>
     \<exists>buff1. Append_all buff ss = Inr buff1 \<and> buf_inv buff1 \<and> Peek buff1 = Peek buff @ concat ss"
proof (induction ss arbitrary: buff)
  case Nil
  then show ?case by simp
next
  case (Cons s ss)
  from Cons.prems(2) have "resize_fits buff (length s)"
    by (simp add: resize_fits_def)
  from Append_ok [OF Cons.prems(1) this] obtain b1 where
    b1: "Append buff s = Inr b1" "buf_inv b1" "Peek b1 = Peek buff @ s"
    "writePos' b1 \<le> writePos' buff + length s"
    by blast
  from b1(4) Cons.prems(2) have "writePos' b1 + length (concat ss) < SIZE_MAX" by simp
  from Cons.IH [OF b1(2) this] obtain b2 where
    "Append_all b1 ss = Inr b2" "buf_inv b2" "Peek b2 = Peek b1 @ concat ss"
    by blast
  with b1 show ?case by simp
qed

lemma AddStateLine_code:
  assumes "AddStateLine' r buff = Inr (r1, buff1)"
  shows "r1 = r\<lparr>code' := (if CODE_STATUS (code' r) = None then 400 else code' r)\<rparr>"
  using assms by (auto simp: AddStateLine'_def split: option.splits sum.splits)

lemma AddContent_code_path:
  assumes "AddContent' fs r buff = Inr (r1, buff1)"
  shows "code' r1 = code' r \<and> HttpResponse.path' r1 = HttpResponse.path' r"
  using assms by (auto simp: AddContent'_def Let_def split: if_splits sum.splits)

lemma MakeResponse_code_path:
  assumes "MakeResponse fs r buff = Inr (r1, buff1)"
  shows "HttpResponse.path' r1 = HttpResponse.path' (ErrorHtml' fs (MakeResponse_status fs r))
         \<and> code' r1
             = (if CODE_STATUS (code' (ErrorHtml' fs (MakeResponse_status fs r))) = None
                then 400
                else code' (ErrorHtml' fs (MakeResponse_status fs r)))"
proof -
  let ?r0 = "ErrorHtml' fs (MakeResponse_status fs r)"
  from assms obtain r2 b1 b2 where
    s1: "AddStateLine' ?r0 buff = Inr (r2, b1)" and s3: "AddContent' fs r2 b2 = Inr (r1, buff1)"
    by (auto simp: MakeResponse_def Let_def split: sum.splits prod.splits)
  from AddStateLine_code [OF s1] AddContent_code_path [OF s3] show ?thesis by simp
qed

section \<open>Claim about the SQL connection pool\<close>

lemma Init_loop_length: "Init_loop rs q = Inr q1 \<Longrightarrow> length q1 = length q + length rs"
  by (induction rs q rule: Init_loop.induct) auto

lemma pool_state_semaphore: "pool_state p \<Longrightarrow> semId' p = length (connQue' p)"
proof (induction rule: pool_state.induct)
  case (after_Init rs p)
  then show ?case
    by (auto simp: SqlConnPool_Init_def SqlConnPool_static_def Let_def
        split: if_splits sum.splits dest: Init_loop_length)
next
  case (after_GetConn p conn p1)
  then show ?case
    by (auto simp: GetConn_def Let_def split: if_splits)
next
  case (after_FreeConn p conn p1)
  then show ?case
    by (auto simp: FreeConn_def split: if_splits)
qed

text \<open>
  C4, as the code has it. In every state of the pool reached from \<open>Init\<close> by calls of
  \<open>GetConn\<close> and \<open>FreeConn\<close> on one thread, the count of the semaphore is the number of idle
  connections. \<open>GetConn\<close> tests the queue first: when no connection is idle it returns
  \<open>nullptr\<close> at once and leaves the pool as it was, without a call of \<open>sem_wait\<close>; otherwise
  it takes the semaphore, which does not block, pops the front of the queue and returns it.
\<close>

theorem GetConn_returns_at_once:
  assumes "pool_state p"
  shows "semId' p = length (connQue' p)
         \<and> fst (GetConn p) \<noteq> Blocked
         \<and> GetConn p
             = (if connQue' p = [] then (Returned None, p)
                else (Returned (hd (connQue' p)),
                      p\<lparr>semId' := semId' p - 1, connQue' := tl (connQue' p)\<rparr>))"
  using pool_state_semaphore [OF assms]
  by (auto simp: GetConn_def Let_def)

theorem GetConn_returns_at_once_witness:
  "pool_state \<lparr>MAX_CONN' = 2, connQue' = [Some 7, Some 8], semId' = 2\<rparr>
   \<and> GetConn \<lparr>MAX_CONN' = 2, connQue' = [Some 7, Some 8], semId' = 2\<rparr>
       = (Returned (Some 7), \<lparr>MAX_CONN' = 2, connQue' = [Some 8], semId' = 1\<rparr>)"
proof -
  have "SqlConnPool_Init SqlConnPool_static [Connected 7, Connected 8]
          = Inr \<lparr>MAX_CONN' = 2, connQue' = [Some 7, Some 8], semId' = 2\<rparr>"
    by (simp add: SqlConnPool_Init_def SqlConnPool_static_def)
  then have s: "pool_state \<lparr>MAX_CONN' = 2, connQue' = [Some 7, Some 8], semId' = 2\<rparr>"
    by (rule after_Init)
  from GetConn_returns_at_once [OF s] s show ?thesis by simp
qed

text \<open>
  C4 as stated fails: after \<open>Init\<close> with one connection and one \<open>GetConn\<close> no connection is
  idle, and the next \<open>GetConn\<close> does not block but returns \<open>nullptr\<close>.
\<close>

theorem GetConn_null_when_none_idle:
  "SqlConnPool_Init SqlConnPool_static [Connected 7]
     = Inr \<lparr>MAX_CONN' = 1, connQue' = [Some 7], semId' = 1\<rparr>
   \<and> GetConn \<lparr>MAX_CONN' = 1, connQue' = [Some 7], semId' = 1\<rparr>
       = (Returned (Some 7), \<lparr>MAX_CONN' = 1, connQue' = [], semId' = 0\<rparr>)
   \<and> GetFreeConnCount \<lparr>MAX_CONN' = 1, connQue' = [], semId' = 0\<rparr> = 0
   \<and> GetConn \<lparr>MAX_CONN' = 1, connQue' = [], semId' = 0\<rparr>
       = (Returned None, \<lparr>MAX_CONN' = 1, connQue' = [], semId' = 0\<rparr>)"
  by (simp add: SqlConnPool_Init_def SqlConnPool_static_def GetConn_def GetFreeConnCount_def)

section \<open>Claim about the log file names\<close>

text \<open>
  A roll calls \<open>flush\<close> while \<open>write\<close> owns \<open>mtx_\<close>, and \<open>flush\<close> locks \<open>mtx_\<close> again: no
  roll reaches its \<open>fopen\<close> with a defined behaviour. A \<open>write\<close> that does not roll leaves the
  logger as it is.
\<close>

lemma Log_write_roll_relocks:
  assumes "\<not> mtx' lg" and "roll_due lg t"
  shows "Log_write_roll LOG_NAME_LEN fopen lg t = Inl UndefinedBehaviour"
  using assms
  by (simp add: Log_write_roll_def lock_guard_def Log_flush_def roll_due_def Let_def)

lemma Log_write_no_roll:
  assumes "\<not> mtx' lg" and "\<not> roll_due lg t" and "MAX_LINES' lg \<noteq> 0"
  shows "Log_write_roll LOG_NAME_LEN fopen lg t = Inr lg"
  using assms
  by (auto simp add: Log_write_roll_def lock_guard_def roll_due_def)

text \<open>
  C9. Claimed: the file that a roll opens is named \<open><path>/YYYY_MM_DD<suffix>\<close> for the
  current local date. The code does not do so. With \<open>LOG_NAME_LEN\<close> at 256, the path
  \<open>./log\<close>, the suffix \<open>.log\<close> and a file opened on the 17th by \<open>Log::init\<close>, the first
  \<open>write\<close> of 18 March 2024 builds, for the file to open, a name made of the path twice, the
  day of the old file in place of the date, and the suffix twice; and the roll then locks the
  mutex it owns. The layout asks for \<open>./log/2024_03_18.log\<close>, the name that \<open>Log::init\<close>
  builds on that day.
\<close>

theorem Log_write_roll_name_of_new_day:
  "Log_init 256 (\<lambda>name. True) (Log_Log 50000) ''./log'' ''.log''
       \<lparr>tm_year = 124, tm_mon = 2, tm_mday = 17\<rparr>
     = Inr \<lparr>lineCount' = 0, toDay' = 17, path' = ''./log'', suffix' = ''.log'',
            MAX_LINES' = 50000, fp' = Some ''./log/2024_03_17.log'', mtx' = False\<rparr>
   \<and> Log_write_newFile 256
         \<lparr>lineCount' = 5, toDay' = 17, path' = ''./log'', suffix' = ''.log'', MAX_LINES' = 50000,
          fp' = Some ''./log/2024_03_17.log'', mtx' = True\<rparr>
         \<lparr>tm_year = 124, tm_mon = 2, tm_mday = 18\<rparr>
       = ''./log/./log.0000_00_17.log.log''
   \<and> date_stamp_name ''./log'' ''.log'' \<lparr>tm_year = 124, tm_mon = 2, tm_mday = 18\<rparr>
       = ''./log/2024_03_18.log''
   \<and> Log_init 256 (\<lambda>name. True) (Log_Log 50000) ''./log'' ''.log''
         \<lparr>tm_year = 124, tm_mon = 2, tm_mday = 18\<rparr>
       = Inr \<lparr>lineCount' = 0, toDay' = 18, path' = ''./log'', suffix' = ''.log'',
              MAX_LINES' = 50000, fp' = Some ''./log/2024_03_18.log'', mtx' = False\<rparr>
   \<and> Log_write_roll 256 (\<lambda>name. True)
         \<lparr>lineCount' = 5, toDay' = 17, path' = ''./log'', suffix' = ''.log'', MAX_LINES' = 50000,
          fp' = Some ''./log/2024_03_17.log'', mtx' = False\<rparr>
         \<lparr>tm_year = 124, tm_mon = 2, tm_mday = 18\<rparr>
       = Inl UndefinedBehaviour"
proof -
  have fmt: "fmt_0d 4 0 = ''0000''" "fmt_0d 2 0 = ''00''" "fmt_0d 2 17 = ''17''"
    "fmt_0d 4 2024 = ''2024''" "fmt_0d 2 3 = ''03''" "fmt_0d 2 18 = ''18''"
    by (simp_all add: fmt_0d_def digit_chars replicate_numeral)
  have day: "(17 :: int) sdiv 10000 = 0" "(17 :: int) smod 10000 sdiv 100 = 0"
    "(17 :: int) smod 100 = 17"
    by (simp_all add: signed_divide_int_def signed_modulo_int_def)
  have i17: "Log_init 256 (\<lambda>name. True) (Log_Log 50000) ''./log'' ''.log''
       \<lparr>tm_year = 124, tm_mon = 2, tm_mday = 17\<rparr>
     = Inr \<lparr>lineCount' = 0, toDay' = 17, path' = ''./log'', suffix' = ''.log'',
            MAX_LINES' = 50000, fp' = Some ''./log/2024_03_17.log'', mtx' = False\<rparr>"
    by (simp add: Log_init_def Log_Log_def lock_guard_def snprintf_def fmt)
  have i18: "Log_init 256 (\<lambda>name. True) (Log_Log 50000) ''./log'' ''.log''
         \<lparr>tm_year = 124, tm_mon = 2, tm_mday = 18\<rparr>
       = Inr \<lparr>lineCount' = 0, toDay' = 18, path' = ''./log'', suffix' = ''.log'',
              MAX_LINES' = 50000, fp' = Some ''./log/2024_03_18.log'', mtx' = False\<rparr>"
    by (simp add: Log_init_def Log_Log_def lock_guard_def snprintf_def fmt)
  have nf: "Log_write_newFile 256
         \<lparr>lineCount' = 5, toDay' = 17, path' = ''./log'', suffix' = ''.log'', MAX_LINES' = 50000,
          fp' = Some ''./log/2024_03_17.log'', mtx' = True\<rparr>
         \<lparr>tm_year = 124, tm_mon = 2, tm_mday = 18\<rparr>
       = ''./log/./log.0000_00_17.log.log''"
    by (simp add: Log_write_newFile_def snprintf_def fmt day)
  have ds: "date_stamp_name ''./log'' ''.log'' \<lparr>tm_year = 124, tm_mon = 2, tm_mday = 18\<rparr>
       = ''./log/2024_03_18.log''"
    by (simp add: date_stamp_name_def fmt)
  have ub: "Log_write_roll 256 (\<lambda>name. True)
         \<lparr>lineCount' = 5, toDay' = 17, path' = ''./log'', suffix' = ''.log'', MAX_LINES' = 50000,
          fp' = Some ''./log/2024_03_17.log'', mtx' = False\<rparr>
         \<lparr>tm_year = 124, tm_mon = 2, tm_mday = 18\<rparr>
       = Inl UndefinedBehaviour"
    by (simp add: Log_write_roll_def lock_guard_def Log_flush_def roll_due_def Let_def)
  from i17 nf ds i18 ub show ?thesis by (intro conjI)
qed

section \<open>The regular expressions of the request parser\<close>

text \<open>
  The two matchers compute the matches of the regular expressions: a line matches
  \<open>^([^ ]*) ([^ ]*) HTTP/([^ ]*)$\<close> with three groups exactly when it is the groups, free of
  blanks, joined by a blank and by \<open> HTTP/\<close>; it matches \<open>^([^:]*): ?(.*)$\<close> exactly when
  it is a key free of colons, a colon, an optional blank that is taken when it is there, and a
  value free of line terminators.
\<close>

lemma split_at_char:
  assumes "dropWhile (\<lambda>c. c \<noteq> a) xs = y # ys"
  shows "y = a" and "xs = takeWhile (\<lambda>c. c \<noteq> a) xs @ a # ys"
    and "a \<notin> set (takeWhile (\<lambda>c. c \<noteq> a) xs)"
proof -
  from hd_dropWhile [of "\<lambda>c. c \<noteq> a" xs] assms show "y = a" by auto
  with takeWhile_dropWhile_id [of "\<lambda>c. c \<noteq> a" xs] assms
  show "xs = takeWhile (\<lambda>c. c \<noteq> a) xs @ a # ys" by simp
  show "a \<notin> set (takeWhile (\<lambda>c. c \<noteq> a) xs)"
    by (auto dest: set_takeWhileD)
qed

lemma split_at_char_unique:
  assumes "a \<notin> set us"
  shows "takeWhile (\<lambda>c. c \<noteq> a) (us @ a # vs) = us"
    and "dropWhile (\<lambda>c. c \<noteq> a) (us @ a # vs) = a # vs"
  using assms by (induction us) auto

lemma match_request_line_iff:
  "match_request_line line = Some (g1, g2, g3) \<longleftrightarrow>
     line = g1 @ '' '' @ g2 @ '' HTTP/'' @ g3
     \<and> CHR '' '' \<notin> set g1 \<and> CHR '' '' \<notin> set g2 \<and> CHR '' '' \<notin> set g3"
  (is "?L \<longleftrightarrow> ?R")
proof
  assume ?R
  then have line: "line = g1 @ CHR '' '' # (g2 @ CHR '' '' # (''HTTP/'' @ g3))"
    and g: "CHR '' '' \<notin> set g1" "CHR '' '' \<notin> set g2" "CHR '' '' \<notin> set g3"
    by simp_all
  show ?L
    unfolding match_request_line_def line
    by (simp add: split_at_char_unique [OF g(1)] split_at_char_unique [OF g(2)] g(3) Let_def)
next
  assume L: ?L
  let ?P = "\<lambda>c. c \<noteq> CHR '' ''"
  from L obtain y r1 where r1: "dropWhile ?P line = y # r1"
    by (auto simp: match_request_line_def Let_def split: list.splits)
  let ?C = "take 6 (dropWhile ?P r1) = '' HTTP/'' \<and> CHR '' '' \<notin> set (drop 6 (dropWhile ?P r1))"
  have eq: "match_request_line line
              = (if ?C then Some (takeWhile ?P line, takeWhile ?P r1, drop 6 (dropWhile ?P r1))
                 else None)"
    unfolding match_request_line_def Let_def r1 list.case ..
  have c: ?C
  proof (rule ccontr)
    assume "\<not> ?C"
    from eq if_not_P [OF this] have "match_request_line line = None" by (rule trans)
    with L show False by simp
  qed
  from eq if_P [OF c]
  have "match_request_line line
          = Some (takeWhile ?P line, takeWhile ?P r1, drop 6 (dropWhile ?P r1))"
    by (rule trans)
  with L have g1: "g1 = takeWhile ?P line" and g2: "g2 = takeWhile ?P r1"
    and g3': "g3 = drop 6 (dropWhile ?P r1)"
    by simp_all
  from c have t: "take 6 (dropWhile ?P r1) = '' HTTP/''" by (rule conjunct1)
  from c have "CHR '' '' \<notin> set (drop 6 (dropWhile ?P r1))" by (rule conjunct2)
  with g3' have g3: "g3 = drop 6 (dropWhile ?P r1)" "CHR '' '' \<notin> set g3"
    by blast+
  have "dropWhile ?P r1 = take 6 (dropWhile ?P r1) @ drop 6 (dropWhile ?P r1)"
    by (rule append_take_drop_id [symmetric])
  then have d: "dropWhile ?P r1 = CHR '' '' # (''HTTP/'' @ g3)"
    unfolding t g3(1) [symmetric] by simp
  have n1: "CHR '' '' \<notin> set g1"
    using split_at_char(3) [OF r1] unfolding g1 [symmetric] .
  have n2: "CHR '' '' \<notin> set g2"
    using split_at_char(3) [OF d] unfolding g2 [symmetric] .
  have l: "line = g1 @ CHR '' '' # r1"
    using split_at_char(2) [OF r1] unfolding g1 [symmetric] .
  have r: "r1 = g2 @ CHR '' '' # (''HTTP/'' @ g3)"
    using split_at_char(2) [OF d] unfolding g2 [symmetric] .
  from l r n1 n2 g3(2) show ?R by simp
qed

lemma match_header_iff:
  "match_header line = Some (key, val) \<longleftrightarrow>
     (\<exists>blank. line = key @ '':'' @ blank @ val
        \<and> (blank = '' '' \<or> blank = [] \<and> take 1 val \<noteq> '' '')
        \<and> CHR '':'' \<notin> set key \<and> \<not> list_ex line_terminator val)"
  (is "?L \<longleftrightarrow> ?R")
proof
  assume ?R
  then obtain blank where line: "line = key @ CHR '':'' # (blank @ val)"
    and b: "blank = '' '' \<or> blank = [] \<and> take 1 val \<noteq> '' ''"
    and k: "CHR '':'' \<notin> set key" and v: "\<not> list_ex line_terminator val"
    by auto
  from b v show ?L
    unfolding match_header_def line
    by (cases val)
      (auto simp: split_at_char_unique [OF k] Let_def line_terminator_def)
next
  assume L: ?L
  let ?P = "\<lambda>c. c \<noteq> CHR '':''"
  from L obtain y r1 where r1: "dropWhile ?P line = y # r1"
    by (auto simp: match_header_def Let_def split: list.splits)
  let ?v = "case r1 of [] \<Rightarrow> [] | c # r2 \<Rightarrow> if c = CHR '' '' then r2 else r1"
  have eq: "match_header line
              = (if list_ex line_terminator r1 then None else Some (takeWhile ?P line, ?v))"
    unfolding match_header_def Let_def r1 list.case ..
  have nt: "\<not> list_ex line_terminator r1"
  proof
    assume "list_ex line_terminator r1"
    from eq if_P [OF this] have "match_header line = None" by (rule trans)
    with L show False by simp
  qed
  from eq if_not_P [OF nt] have "match_header line = Some (takeWhile ?P line, ?v)"
    by (rule trans)
  with L have key: "key = takeWhile ?P line" and val: "val = ?v" by simp_all
  have k: "CHR '':'' \<notin> set key"
    using split_at_char(3) [OF r1] unfolding key [symmetric] .
  have l: "line = key @ CHR '':'' # r1"
    using split_at_char(2) [OF r1] unfolding key [symmetric] .
  show ?R
  proof (cases r1)
    case Nil
    with val l k show ?thesis by (intro exI [of _ "[]"]) simp
  next
    case (Cons c r2)
    show ?thesis
    proof (cases "c = CHR '' ''")
      case True
      with Cons val nt l k show ?thesis by (intro exI [of _ "'' ''"]) simp
    next
      case False
      with Cons val nt l k show ?thesis by (intro exI [of _ "[]"]) simp
    qed
  qed
qed

section \<open>Claims about the request parser\<close>

text \<open>The definitions that a run of \<open>parse\<close> on given bytes unfolds.\<close>

lemmas parse_eval =
  parse_def Buffer_of_def ReadableBytes_def size_t_of_int_def CRLF_def parse_iteration_def Peek_def
  RetrieveUntil_def Retrieve_def HttpRequest_Init_def ParseRequestLine'_def
  match_request_line_def ParsePath'_def find_last_of_def substr_def npos_def ParseHeader'_def
  match_header_def line_terminator_def DEFAULT_HTML_def Let_def ParseBody'_def ParsePost'_def
  map_index_def

lemmas form_eval =
  ParseFromUrlencoded'_def ConverHex_def substr_def size_t_of_int_def
  signed_divide_int_def signed_modulo_int_def digit_chars Let_def DEFAULT_HTML_TAG_def

lemma search_le: "search xs pat \<le> length xs"
  by (induction xs) auto

lemma search_found:
  "search xs pat < length xs \<Longrightarrow> search xs pat + length pat \<le> length xs"
proof (induction xs)
  case Nil
  then show ?case by simp
next
  case (Cons x xs)
  show ?case
  proof (cases "take (length pat) (x # xs) = pat")
    case True
    then have "length pat = length (take (length pat) (x # xs))" by simp
    then have "length pat \<le> length (x # xs)" by (simp del: take_Suc_Cons)
    with True show ?thesis by simp
  next
    case False
    with Cons show ?thesis by simp
  qed
qed

lemma Retrieve_Peek:
  assumes "buf_inv b" "len \<le> ReadableBytes b"
  shows "\<exists>b'. Retrieve b len = Inr b' \<and> buf_inv b' \<and> Peek b' = drop len (Peek b)"
proof -
  from Retrieve_ok [OF assms] obtain b' where
    b': "Retrieve b len = Inr b'" "buf_inv b'" "buffer' b' = buffer' b"
    "if len = ReadableBytes b then readPos' b' = 0 \<and> writePos' b' = 0
     else readPos' b' = readPos' b + len \<and> writePos' b' = writePos' b"
    by blast
  have "Peek b' = drop len (Peek b)"
    unfolding Peek_inv [OF b'(2)] Peek_inv [OF assms(1)]
    using b'(3,4) assms(2) buf_invD [OF assms(1)] unfolding ReadableBytes_inv [OF assms(1)]
    by (auto simp: drop_take add.commute split: if_splits)
  with b'(1,2) show ?thesis by blast
qed

text \<open>A line that is complete is taken from the buffer with its CRLF; no assertion fails.\<close>

lemma take_line:
  assumes "buf_inv buff" "search (Peek buff) CRLF < length (Peek buff)"
  shows "\<exists>buff1. RetrieveUntil buff (readPos' buff + search (Peek buff) CRLF + 2) = Inr buff1
           \<and> buf_inv buff1
           \<and> Peek buff1 = drop (search (Peek buff) CRLF + 2) (Peek buff)"
proof -
  let ?n = "search (Peek buff) CRLF"
  have "?n + 2 \<le> length (Peek buff)"
    using search_found [OF assms(2)] by (simp add: CRLF_def)
  then have le: "?n + 2 \<le> ReadableBytes buff"
    using Peek_length [OF assms(1)] by simp
  then have "RetrieveUntil buff (readPos' buff + ?n + 2) = Retrieve buff (?n + 2)"
    using buf_invD [OF assms(1)] unfolding ReadableBytes_inv [OF assms(1)]
    by (auto simp: RetrieveUntil_def)
  with Retrieve_Peek [OF assms(1) le] show ?thesis by simp
qed

text \<open>
  C1. Claimed: with a \<open>Content-Length\<close> of N the parser goes from \<open>BODY\<close> to \<open>FINISH\<close>
  after exactly N bytes, which are the body, CRLF inside them or not. The code does not do so.
  \<open>parse\<close> never reads the value of \<open>Content-Length\<close>: in the state \<open>BODY\<close> it takes the
  bytes up to the next CRLF as the body. A body of 8 bytes with a CRLF
  inside ends at its third byte, with the state \<open>FINISH\<close> and three bytes left in the buffer;
  a body of 3 bytes with no CRLF behind it is never taken, and the state stays \<open>BODY\<close>.
\<close>

theorem parse_body_is_one_line:
  "parse db HttpRequest_Init
     (Buffer_of (''POST /post HTTP/1.1'' @ CRLF @ ''Content-Length: 8'' @ CRLF @ CRLF
                   @ ''a=1'' @ CRLF @ ''b=2''))
   = Inr (True,
          \<lparr>state' = FINISH, method' = ''POST'', path' = ''/post'', version' = ''1.1'',
           body' = ''a=1'', header' = [''Content-Length'' \<mapsto> ''8'', ''Content-Type'' \<mapsto> []],
           post' = Map.empty\<rparr>,
          \<lparr>buffer' = ''POST /post HTTP/1.1'' @ CRLF @ ''Content-Length: 8'' @ CRLF @ CRLF
                       @ ''a=1'' @ CRLF @ ''b=2'',
           readPos' = 47, writePos' = 50\<rparr>)
   \<and> parse db HttpRequest_Init
       (Buffer_of (''POST /post HTTP/1.1'' @ CRLF @ ''Content-Length: 3'' @ CRLF @ CRLF
                     @ ''a=1''))
     = Inr (True,
            \<lparr>state' = BODY, method' = ''POST'', path' = ''/post'', version' = ''1.1'',
             body' = [], header' = [''Content-Length'' \<mapsto> ''3''], post' = Map.empty\<rparr>,
            \<lparr>buffer' = ''POST /post HTTP/1.1'' @ CRLF @ ''Content-Length: 3'' @ CRLF @ CRLF
                         @ ''a=1'',
             readPos' = 42, writePos' = 45\<rparr>)"
  by (simp add: parse_eval)

text \<open>
  C5. Claimed: a form body is split on \<open>&\<close> into \<open>key=value\<close> pairs, \<open>+\<close> becomes a
  blank, and \<open>%HH\<close> becomes the byte \<open>16 * hex(H1) + hex(H2)\<close>, so that \<open>a%41b\<close> decodes
  to \<open>aAb\<close>. The code does the first two, but for \<open>%HH\<close> it keeps the \<open>%\<close> and writes the
  decimal digits of that number over the two hexadecimal ones: \<open>a%41b\<close> becomes \<open>a%65b\<close>.
\<close>

theorem ParseFromUrlencoded_percent_escape:
  "ParseFromUrlencoded' (HttpRequest_Init\<lparr>body' := ''k=a%41b''\<rparr>)
     = Inr (HttpRequest_Init\<lparr>body' := ''k=a%65b'', post' := [''k'' \<mapsto> ''a%65b'']\<rparr>)
   \<and> ParseFromUrlencoded' (HttpRequest_Init\<lparr>body' := ''a+b=c+d&e=f''\<rparr>)
       = Inr (HttpRequest_Init\<lparr>body' := ''a b=c d&e=f'',
                               post' := [''a b'' \<mapsto> ''c d'', ''e'' \<mapsto> ''f'']\<rparr>)
   \<and> parse db HttpRequest_Init
       (Buffer_of (''POST /post HTTP/1.1'' @ CRLF
                     @ ''Content-Type: application/x-www-form-urlencoded'' @ CRLF
                     @ ''Content-Length: 7'' @ CRLF @ CRLF @ ''k=a%41b'' @ CRLF))
     = Inr (True,
            \<lparr>state' = FINISH, method' = ''POST'', path' = ''/post'', version' = ''1.1'',
             body' = ''k=a%65b'',
             header' = [''Content-Type'' \<mapsto> ''application/x-www-form-urlencoded'',
                        ''Content-Length'' \<mapsto> ''7''],
             post' = [''k'' \<mapsto> ''a%65b'']\<rparr>,
            \<lparr>buffer' = ''POST /post HTTP/1.1'' @ CRLF
                         @ ''Content-Type: application/x-www-form-urlencoded'' @ CRLF
                         @ ''Content-Length: 7'' @ CRLF @ CRLF @ ''k=a%41b'' @ CRLF,
             readPos' = 0, writePos' = 0\<rparr>)"
  by (simp add: parse_eval form_eval)

text \<open>
  C7, as the code has it. \<open>ParseHeader_\<close> returns nothing and \<open>parse\<close> tests nothing after
  it. In the state \<open>HEADERS\<close>, a complete line that is not empty and that
  \<open>^([^:]*): ?(.*)$\<close> does not match is skipped: the line and its CRLF leave the buffer, the
  request is what it was, header map and state included, and the loop goes on with the rest of the
  buffer.
\<close>

theorem header_line_without_match_is_skipped:
  assumes "buf_inv buff" and "state' req = HEADERS"
    and "search (Peek buff) CRLF < length (Peek buff)"
    and "line = take (search (Peek buff) CRLF) (Peek buff)"
    and "line \<noteq> []" and "match_header line = None"
  shows "\<exists>buff1. parse_iteration db req buff = Continue req buff1
           \<and> buf_inv buff1
           \<and> Peek buff1 = drop (length line + 2) (Peek buff)
           \<and> parse db req buff = parse_loop db req buff1"
proof -
  let ?n = "search (Peek buff) CRLF"
  from take_line [OF assms(1,3)] obtain buff1 where
    b1: "RetrieveUntil buff (readPos' buff + ?n + 2) = Inr buff1" "buf_inv buff1"
    "Peek buff1 = drop (?n + 2) (Peek buff)"
    by blast
  have len: "length line = ?n"
    using assms(3,4) by simp
  have it: "parse_iteration db req buff = Continue req buff1"
    using assms(2,3,5,6) b1(1) assms(4) [symmetric]
    by (simp add: parse_iteration_def Let_def ParseHeader'_def)
  have "0 < ReadableBytes buff"
    using assms(3) Peek_length [OF assms(1)] by simp
  then have "parse db req buff = parse_loop db req buff1"
    using it assms(2) by (simp add: parse_def)
  with it b1 len show ?thesis by simp
qed

theorem header_line_without_match_is_skipped_witness:
  "buf_inv (Buffer_of (''nocolon'' @ CRLF @ CRLF))
   \<and> state' (HttpRequest_Init\<lparr>state' := HEADERS\<rparr>) = HEADERS
   \<and> search (Peek (Buffer_of (''nocolon'' @ CRLF @ CRLF))) CRLF
       < length (Peek (Buffer_of (''nocolon'' @ CRLF @ CRLF)))
   \<and> ''nocolon''
       = take (search (Peek (Buffer_of (''nocolon'' @ CRLF @ CRLF))) CRLF)
           (Peek (Buffer_of (''nocolon'' @ CRLF @ CRLF)))
   \<and> ''nocolon'' \<noteq> []
   \<and> match_header ''nocolon'' = None
   \<and> (\<exists>buff1. parse_iteration (\<lambda>name pwd isLogin. Inr False)
                  (HttpRequest_Init\<lparr>state' := HEADERS\<rparr>)
                  (Buffer_of (''nocolon'' @ CRLF @ CRLF))
                = Continue (HttpRequest_Init\<lparr>state' := HEADERS\<rparr>) buff1
              \<and> Peek buff1 = CRLF)"
proof -
  let ?B = "Buffer_of (''nocolon'' @ CRLF @ CRLF)"
  let ?R = "HttpRequest_Init\<lparr>state' := HEADERS\<rparr>"
  have h1: "buf_inv ?B" by (simp add: buf_inv_def Buffer_of_def CRLF_def SIZE_MAX_def)
  have h2: "state' ?R = HEADERS" by simp
  have h3: "search (Peek ?B) CRLF < length (Peek ?B)"
    by (simp add: Peek_def Buffer_of_def ReadableBytes_def size_t_of_int_def CRLF_def)
  have h4: "''nocolon'' = take (search (Peek ?B) CRLF) (Peek ?B)"
    by (simp add: Peek_def Buffer_of_def ReadableBytes_def size_t_of_int_def CRLF_def)
  have h5: "''nocolon'' \<noteq> []" by simp
  have h6: "match_header ''nocolon'' = None" by (simp add: match_header_def)
  from header_line_without_match_is_skipped
    [OF h1 h2 h3 h4 h5 h6, of "\<lambda>name pwd isLogin. Inr False"]
  obtain buff1 where
    it: "parse_iteration (\<lambda>name pwd isLogin. Inr False) ?R ?B = Continue ?R buff1"
    and rest: "Peek buff1 = drop (length ''nocolon'' + 2) (Peek ?B)"
    by blast
  have "drop (length ''nocolon'' + 2) (Peek ?B) = CRLF"
    by (simp add: Peek_def Buffer_of_def ReadableBytes_def size_t_of_int_def CRLF_def)
  with rest have "Peek buff1 = CRLF" by (rule trans)
  with it have ex:
    "\<exists>buff1. parse_iteration (\<lambda>name pwd isLogin. Inr False) ?R ?B = Continue ?R buff1
              \<and> Peek buff1 = CRLF"
    by blast
  show ?thesis by (intro conjI h1 h2 h3 h4 h5 h6 ex)
qed

text \<open>
  C7 as stated fails: the line \<open>nocolon\<close> is not empty and has no colon, yet \<open>parse\<close> returns
  true for the request around it, in the state \<open>FINISH\<close> and with no header stored.
\<close>

theorem parse_accepts_header_line_without_colon:
  "''nocolon'' \<noteq> []
   \<and> \<not> spec_header_syntax ''nocolon''
   \<and> parse (\<lambda>name pwd isLogin. Inr False) HttpRequest_Init
       (Buffer_of (''GET / HTTP/1.1'' @ CRLF @ ''nocolon'' @ CRLF @ CRLF))
     = Inr (True,
            \<lparr>state' = FINISH, method' = ''GET'', path' = ''/index.html'', version' = ''1.1'',
             body' = [], header' = Map.empty, post' = Map.empty\<rparr>,
            \<lparr>buffer' = ''GET / HTTP/1.1'' @ CRLF @ ''nocolon'' @ CRLF @ CRLF,
             readPos' = 0, writePos' = 0\<rparr>)"
  by (simp add: parse_eval spec_header_syntax_def)

text \<open>
  When \<open>parse\<close> returns false. After the request line the loop never does: \<open>parse\<close>
  returns false exactly when the buffer has no readable byte, or when the state is
  \<open>REQUEST_LINE\<close> and the first pass of the loop ends in \<open>return false\<close>, which it does when
  \<open>ParseRequestLine_\<close> returns false for a complete first line.
\<close>

lemma ParseHeader_state: "state' (ParseHeader' req line) = state' req"
  by (simp add: ParseHeader'_def split: option.splits)

lemma parse_iteration_after_request_line:
  assumes "state' req \<noteq> REQUEST_LINE"
  shows "parse_iteration db req buff \<noteq> Return ok r b"
    and "parse_iteration db req buff = Continue req1 buff1 \<Longrightarrow> state' req1 \<noteq> REQUEST_LINE"
  using assms
  by (auto simp: parse_iteration_def Let_def ParseHeader_state
      split: if_splits sum.splits PARSE_STATE.splits)

lemma parse_loop_true_after_request_line:
  "state' req \<noteq> REQUEST_LINE \<Longrightarrow> parse_loop db req buff = Inr (ok, r, b) \<Longrightarrow> ok"
proof (induction db req buff rule: parse_loop.induct)
  case (1 db req buff)
  show ?case
  proof (cases "0 < ReadableBytes buff \<and> state' req \<noteq> FINISH")
    case False
    with "1.prems"(2) show ?thesis by auto
  next
    case True
    show ?thesis
    proof (cases "parse_iteration db req buff")
      case (Continue req1 buff1)
      with True "1.prems"(2) have "parse_loop db req1 buff1 = Inr (ok, r, b)" by simp
      moreover have "state' req1 \<noteq> REQUEST_LINE"
        using parse_iteration_after_request_line(2) [OF "1.prems"(1) Continue] .
      ultimately show ?thesis using "1.IH" [OF True Continue] by simp
    next
      case (Break req1 buff1)
      with True "1.prems"(2) show ?thesis by simp
    next
      case (Return x req1 buff1)
      with parse_iteration_after_request_line(1) [OF "1.prems"(1)] show ?thesis by simp
    next
      case (Throw e)
      with True "1.prems"(2) show ?thesis by simp
    qed
  qed
qed

lemma parse_returns_false_iff:
  "parse db req buff = Inr (False, r, b) \<longleftrightarrow>
     (ReadableBytes buff = 0 \<and> r = req \<and> b = buff)
     \<or> (0 < ReadableBytes buff \<and> state' req = REQUEST_LINE
          \<and> parse_iteration db req buff = Return False r b)"
proof (cases "ReadableBytes buff = 0")
  case True
  then show ?thesis by (auto simp: parse_def)
next
  case False
  then have pos: "0 < ReadableBytes buff" by simp
  show ?thesis
  proof (cases "state' req = REQUEST_LINE")
    case False
    with parse_loop_true_after_request_line [of req db buff False r b] pos
    show ?thesis by (auto simp: parse_def)
  next
    case True
    show ?thesis
    proof (cases "parse_iteration db req buff")
      case (Continue req1 buff1)
      then have "state' req1 \<noteq> REQUEST_LINE"
        using True
        by (auto simp: parse_iteration_def Let_def split: if_splits sum.splits prod.splits)
      with parse_loop_true_after_request_line [of req1 db buff1 False r b] Continue True pos
      show ?thesis by (auto simp: parse_def)
    next
      case (Break req1 buff1)
      with True pos show ?thesis by (simp add: parse_def)
    next
      case (Return x req1 buff1)
      with True pos show ?thesis by (auto simp: parse_def)
    next
      case (Throw e)
      with True pos show ?thesis by (simp add: parse_def)
    qed
  qed
qed

lemma parse_iteration_returns_false_iff:
  assumes "buf_inv buff" "state' req = REQUEST_LINE"
  shows "parse_iteration db req buff = Return False r b \<longleftrightarrow>
           search (Peek buff) CRLF < length (Peek buff)
           \<and> ParseRequestLine' req (take (search (Peek buff) CRLF) (Peek buff)) = Inr (False, r)
           \<and> RetrieveUntil buff (readPos' buff + search (Peek buff) CRLF + 2) = Inr b"
proof (cases "search (Peek buff) CRLF < length (Peek buff)")
  case False
  with search_le [of "Peek buff" CRLF] have "search (Peek buff) CRLF = length (Peek buff)"
    by simp
  then show ?thesis by (simp add: parse_iteration_def)
next
  case True
  from take_line [OF assms(1) True] obtain buff1 where
    "RetrieveUntil buff (readPos' buff + search (Peek buff) CRLF + 2) = Inr buff1"
    by blast
  with True assms(2) show ?thesis
    by (auto simp: parse_iteration_def Let_def split: sum.splits)
qed

text \<open>A request cut off before the blank line: \<open>parse\<close> returns true in the state \<open>HEADERS\<close>.\<close>

lemma parse_incomplete_request:
  "parse db HttpRequest_Init (Buffer_of (''GET / HTTP/1.1'' @ CRLF @ ''Host: x'' @ CRLF))
     = Inr (True,
            \<lparr>state' = HEADERS, method' = ''GET'', path' = ''/index.html'', version' = ''1.1'',
             body' = [], header' = [''Host'' \<mapsto> ''x''], post' = Map.empty\<rparr>,
            \<lparr>buffer' = ''GET / HTTP/1.1'' @ CRLF @ ''Host: x'' @ CRLF,
             readPos' = 0, writePos' = 0\<rparr>)"
  by (simp add: parse_eval)

text \<open>
  C10. Claimed: \<open>parse\<close> returns false only for a buffer with no readable byte or a request
  line that fails to parse, and true for every other input. The first half is
  \<open>parse_returns_false_iff\<close>. The second fails for a request line that the pattern matches,
  with the method \<open>GET\<close> or \<open>POST\<close>, and whose path has no \<open>/\<close>: \<open>find_last_of\<close> gives
  \<open>npos\<close>, \<open>substr(npos)\<close> throws \<open>std::out_of_range\<close>, and \<open>parse\<close>, which has no
  handler, returns neither true nor false.
\<close>

theorem parse_throws_on_path_without_slash:
  "match_request_line ''GET index.html HTTP/1.1'' = Some (''GET'', ''index.html'', ''1.1'')
   \<and> find_last_of ''index.html'' (CHR ''/'') = npos
   \<and> substr ''index.html'' npos npos = Inl OutOfRange
   \<and> parse db HttpRequest_Init (Buffer_of (''GET index.html HTTP/1.1'' @ CRLF @ CRLF))
       = Inl OutOfRange"
  by (simp add: parse_eval)

end
